theory Spec2Isabelle
  imports Main "HOL-Library.Word" "HOL-Library.Signed_Division" "HOL-Library.AList"
begin

section \<open>Pig game server: the game state machine and the match directory\<close>

text \<open>
  The Go sources embedded here are \<^verbatim>\<open>game\<close> (type \<^verbatim>\<open>PigGame\<close>: AddPlayer, RemovePlayer,
  Start, Roll, Hold, nextTurn), \<^verbatim>\<open>models/types.go\<close> (Player, GameState, Message and their
  constructors) and \<^verbatim>\<open>server/match.go\<close> (FindOrCreateMatch, handleRegister).

  Conventions of the embedding:
  \<^item> Go's \<^verbatim>\<open>int\<close> is a 64-bit two's complement integer: \<open>64 word\<close>, with \<open>+\<close> wrapping,
    comparisons on the signed value (\<open>\<le>s\<close>, \<open>sint\<close>) and \<^verbatim>\<open>%\<close> the truncated remainder.
  \<^item> \<^verbatim>\<open>len(s)\<close> of a slice is a non-negative \<^verbatim>\<open>int\<close>; it is compared on \<open>length\<close> directly
    and converted by \<open>len\<close> where it enters \<^verbatim>\<open>int\<close> arithmetic.
  \<^item> \<^verbatim>\<open>time.Now()\<close> is a parameter \<open>now\<close> of each operation (the clock is read once per
    call, also by a handler that reads it several times), a fresh UUID is a parameter,
    and the value drawn from the generator is a parameter \<open>rnd\<close> of \<open>Roll\<close>.
  \<^item> The mutex of \<^verbatim>\<open>PigGame\<close> is not modelled: every operation holds it for its whole body,
    so an operation is a function from the state before to the state after.
  \<^item> An index out of range is a run-time panic: the outcome \<open>Panics\<close>.
\<close>

unbundle bit_operations_syntax

type_synonym int64 = "64 word"

subsection \<open>models/types.go\<close>

record Player =
  ID :: string
  Name :: string
  Score :: int64
  IsActive :: bool

text \<open>
  \<^verbatim>\<open>Players []*Player\<close> holds pointers to pairwise distinct objects (AddPlayer refuses a
  player whose ID is present, so no pointer is appended twice), and \<^verbatim>\<open>Winner *Player\<close> is
  nil or one of these pointers. The slice is modelled by the list of the objects and
  \<open>Winner\<close> by the position of the object it points to, so that a write through one of the
  pointers is seen through the other.
\<close>

record GameState =
  GameID :: string
  Players :: "Player list"
  CurrentPlayer :: int64
  TurnScore :: int64
  LastRoll :: int64
  WinningScore :: int64
  Winner :: "nat option"
  IsGameOver :: bool
  CreatedAt :: nat
  LastActivityAt :: nat

definition NewPlayer :: "string \<Rightarrow> string \<Rightarrow> Player" where
  "NewPlayer uuid name = \<lparr>ID = uuid, Name = name, Score = 0, IsActive = True\<rparr>"

definition NewGameState :: "string \<Rightarrow> nat \<Rightarrow> int64 \<Rightarrow> GameState" where
  "NewGameState uuid now winningScore =
     \<lparr>GameID = uuid, Players = [], CurrentPlayer = 0, TurnScore = 0, LastRoll = 0,
      WinningScore = winningScore, Winner = None, IsGameOver = False,
      CreatedAt = now, LastActivityAt = now\<rparr>"

subsection \<open>Go primitives\<close>

definition len :: "'a list \<Rightarrow> int64" where
  "len xs = word_of_nat (length xs)"

text \<open>\<^verbatim>\<open>xs[i]\<close> for an \<^verbatim>\<open>int\<close> index: \<open>None\<close> is the index-out-of-range panic.\<close>

definition slice_index :: "'a list \<Rightarrow> int64 \<Rightarrow> 'a option" where
  "slice_index xs i =
     (if 0 \<le> sint i \<and> nat (sint i) < length xs then Some (xs ! nat (sint i)) else None)"

text \<open>\<^verbatim>\<open>a % b\<close>: the remainder of the division truncated towards zero.\<close>

definition go_rem :: "int64 \<Rightarrow> int64 \<Rightarrow> int64" where
  "go_rem a b = word_of_int (sint a smod sint b)"

text \<open>
  \<^verbatim>\<open>rng.Intn(n)\<close> returns a value of the half-open interval \<open>[0, n)\<close>; \<open>rnd\<close> is the raw
  value the generator produces for this call.
\<close>

definition Intn :: "nat \<Rightarrow> nat \<Rightarrow> int64" where
  "Intn rnd n = word_of_nat (rnd mod n)"

text \<open>The position of the first element a \<^verbatim>\<open>range\<close> loop finds with a property.\<close>

fun first_index :: "('a \<Rightarrow> bool) \<Rightarrow> 'a list \<Rightarrow> nat option" where
  "first_index P [] = None"
| "first_index P (x # xs) = (if P x then Some 0 else map_option Suc (first_index P xs))"

subsection \<open>game: errors and outcomes\<close>

datatype error =
    ErrGameNotStarted
  | ErrGameOver
  | ErrNotPlayerTurn
  | ErrInvalidPlayer
  | ErrGameFull
  | ErrNotEnoughPlayers
  | ErrPlayerAlreadyInGame

text \<open>
  An operation that indexes the slice either panics or returns its result together with
  the state it leaves: the state is returned on failure too, since the Go code mutates in
  place and whatever it wrote before an error return stays written.
\<close>

datatype 'r outcome = Panics | Returns 'r GameState

subsection \<open>game: nextTurn\<close>

text \<open>
  The loop of \<^verbatim>\<open>nextTurn\<close>, entered at iteration \<open>i\<close>. \<^verbatim>\<open>break\<close> and the normal end of the
  loop both continue with \<^verbatim>\<open>g.state.LastRoll = 0\<close>; the \<^verbatim>\<open>return\<close> inside the loop does not.
\<close>

function nextTurn_loop :: "int64 \<Rightarrow> nat \<Rightarrow> GameState \<Rightarrow> unit outcome" where
  "nextTurn_loop startIdx i g =
     (if i < length (Players g) then
        (let g1 = g\<lparr>CurrentPlayer := go_rem (CurrentPlayer g + 1) (len (Players g))\<rparr> in
         case slice_index (Players g1) (CurrentPlayer g1) of
           None \<Rightarrow> Panics
         | Some p \<Rightarrow>
             if IsActive p then Returns () (g1\<lparr>LastRoll := 0\<rparr>)
             else if CurrentPlayer g1 = startIdx \<and> i = length (Players g1) - 1
               then Returns () (g1\<lparr>IsGameOver := True\<rparr>)
               else nextTurn_loop startIdx (i + 1) g1)
      else Returns () (g\<lparr>LastRoll := 0\<rparr>))"
  by pat_completeness auto
termination
  by (relation "measure (\<lambda>(startIdx, i, g). length (Players g) - i)") auto

definition nextTurn :: "GameState \<Rightarrow> unit outcome" where
  "nextTurn g =
     (if length (Players g) = 0 then Returns () g
      else nextTurn_loop (CurrentPlayer g) 0 g)"

subsection \<open>game: the operations\<close>

definition NewPigGame :: "string \<Rightarrow> nat \<Rightarrow> int64 \<Rightarrow> GameState" where
  "NewPigGame uuid now winningScore =
     NewGameState uuid now (if winningScore \<le>s 0 then 100 else winningScore)"

definition AddPlayer :: "nat \<Rightarrow> Player \<Rightarrow> GameState \<Rightarrow> error option \<times> GameState" where
  "AddPlayer now player g =
     (if IsGameOver g then (Some ErrGameOver, g)
      else if length (Players g) \<ge> 4 then (Some ErrGameFull, g)
      else if \<exists>p \<in> set (Players g). ID p = ID player then (Some ErrPlayerAlreadyInGame, g)
      else (None, g\<lparr>Players := Players g @ [player], LastActivityAt := now\<rparr>))"

definition RemovePlayer :: "nat \<Rightarrow> string \<Rightarrow> GameState \<Rightarrow> error option outcome" where
  "RemovePlayer now playerID g =
     (case first_index (\<lambda>p. ID p = playerID) (Players g) of
        None \<Rightarrow> Returns (Some ErrInvalidPlayer) g
      | Some i \<Rightarrow>
          (let g1 = g\<lparr>Players := (Players g)[i := (Players g ! i)\<lparr>IsActive := False\<rparr>]\<rparr>;
               activeCount = length (filter IsActive (Players g1));
               g2 = (if activeCount \<le> 1 \<and> length (Players g1) > 1
                     then (case first_index IsActive (Players g1) of
                             Some j \<Rightarrow> g1\<lparr>IsGameOver := True, Winner := Some j\<rparr>
                           | None \<Rightarrow> g1\<lparr>IsGameOver := True\<rparr>)
                     else g1)
           in if word_of_nat i = CurrentPlayer g2
              then (case nextTurn g2 of
                      Panics \<Rightarrow> Panics
                    | Returns _ g3 \<Rightarrow> Returns None (g3\<lparr>LastActivityAt := now\<rparr>))
              else Returns None (g2\<lparr>LastActivityAt := now\<rparr>)))"

definition CanStart :: "GameState \<Rightarrow> bool" where
  "CanStart g \<longleftrightarrow> length (Players g) \<ge> 2"

definition Start :: "nat \<Rightarrow> GameState \<Rightarrow> error option \<times> GameState" where
  "Start now g =
     (if length (Players g) < 2 then (Some ErrNotEnoughPlayers, g)
      else if IsGameOver g then (Some ErrGameOver, g)
      else (None, g\<lparr>LastActivityAt := now\<rparr>))"

definition Roll :: "nat \<Rightarrow> nat \<Rightarrow> string \<Rightarrow> GameState \<Rightarrow> (int64 \<times> error option) outcome" where
  "Roll now rnd playerID g =
     (if IsGameOver g then Returns (0, Some ErrGameOver) g
      else if length (Players g) < 2 then Returns (0, Some ErrGameNotStarted) g
      else case slice_index (Players g) (CurrentPlayer g) of
        None \<Rightarrow> Panics
      | Some currentPlayer \<Rightarrow>
          if ID currentPlayer \<noteq> playerID then Returns (0, Some ErrNotPlayerTurn) g
          else if \<not> IsActive currentPlayer then Returns (0, Some ErrInvalidPlayer) g
          else
            (let roll = Intn rnd 6 + 1;
                 g1 = g\<lparr>LastRoll := roll, LastActivityAt := now\<rparr>
             in if roll = 1
                then (case nextTurn (g1\<lparr>TurnScore := 0\<rparr>) of
                        Panics \<Rightarrow> Panics
                      | Returns _ g2 \<Rightarrow> Returns (roll, None) g2)
                else Returns (roll, None) (g1\<lparr>TurnScore := TurnScore g1 + roll\<rparr>)))"

definition Hold :: "nat \<Rightarrow> string \<Rightarrow> GameState \<Rightarrow> error option outcome" where
  "Hold now playerID g =
     (if IsGameOver g then Returns (Some ErrGameOver) g
      else if length (Players g) < 2 then Returns (Some ErrGameNotStarted) g
      else case slice_index (Players g) (CurrentPlayer g) of
        None \<Rightarrow> Panics
      | Some currentPlayer \<Rightarrow>
          if ID currentPlayer \<noteq> playerID then Returns (Some ErrNotPlayerTurn) g
          else if \<not> IsActive currentPlayer then Returns (Some ErrInvalidPlayer) g
          else
            (let c = nat (sint (CurrentPlayer g));
                 banked = currentPlayer\<lparr>Score := Score currentPlayer + TurnScore g\<rparr>;
                 g1 = g\<lparr>Players := (Players g)[c := banked], LastActivityAt := now\<rparr>
             in if WinningScore g1 \<le>s Score banked
                then Returns None (g1\<lparr>IsGameOver := True, Winner := Some c, TurnScore := 0\<rparr>)
                else (case nextTurn (g1\<lparr>TurnScore := 0\<rparr>) of
                        Panics \<Rightarrow> Panics
                      | Returns _ g2 \<Rightarrow> Returns None g2)))"


subsection \<open>game: sequences of operations\<close>

text \<open>
  One call of the public interface of \<^verbatim>\<open>PigGame\<close>, with the clock reading (and the
  generator's value) it meets. \<open>apply_op\<close> keeps the state the call leaves, whether it
  succeeded or returned an error; \<open>None\<close> is a panic.
\<close>

datatype op =
    OpAddPlayer nat Player
  | OpRemovePlayer nat string
  | OpStart nat
  | OpRoll nat nat string
  | OpHold nat string

fun apply_op :: "op \<Rightarrow> GameState \<Rightarrow> GameState option" where
  "apply_op (OpAddPlayer now player) g = Some (snd (AddPlayer now player g))"
| "apply_op (OpRemovePlayer now playerID) g =
     (case RemovePlayer now playerID g of Panics \<Rightarrow> None | Returns _ g' \<Rightarrow> Some g')"
| "apply_op (OpStart now) g = Some (snd (Start now g))"
| "apply_op (OpRoll now rnd playerID) g =
     (case Roll now rnd playerID g of Panics \<Rightarrow> None | Returns _ g' \<Rightarrow> Some g')"
| "apply_op (OpHold now playerID) g =
     (case Hold now playerID g of Panics \<Rightarrow> None | Returns _ g' \<Rightarrow> Some g')"

fun run :: "op list \<Rightarrow> GameState \<Rightarrow> GameState option" where
  "run [] g = Some g"
| "run (x # xs) g = (case apply_op x g of None \<Rightarrow> None | Some g' \<Rightarrow> run xs g')"

subsection \<open>The turn-advance rule of the specification\<close>

text \<open>
  ``Scan forward cyclically from the current index; select the first participant with
  active=true'': \<open>c'\<close> is the first active position met after \<open>c\<close>, going round the
  list once (the last position visited is \<open>c\<close> itself).
\<close>

definition first_active_after :: "Player list \<Rightarrow> nat \<Rightarrow> nat \<Rightarrow> bool" where
  "first_active_after ps c c' \<longleftrightarrow>
     (\<exists>k \<in> {1..length ps}. c' = (c + k) mod length ps \<and> IsActive (ps ! c') \<and>
        (\<forall>j \<in> {1..<k}. \<not> IsActive (ps ! ((c + j) mod length ps))))"

subsection \<open>server/match.go\<close>

text \<open>
  A channel is modelled by the sequence of the messages sent on it, oldest first. A Go
  map is an association list with distinct keys (\<open>AList.update\<close> for \<^verbatim>\<open>m[k] = v\<close>,
  \<open>AList.delete\<close> for \<^verbatim>\<open>delete(m, k)\<close>, \<open>length\<close> for \<^verbatim>\<open>len(m)\<close>). A pointer to a
  connection or to a match is modelled by the value of the object at the time of the
  call; where the source writes through a pointer that the map holds too, the model
  writes both. The inbound channels \<^verbatim>\<open>Register\<close>, \<^verbatim>\<open>Unregister\<close> and \<^verbatim>\<open>PlayerActions\<close>, the
  socket of a connection and the goroutine started by \<^verbatim>\<open>go match.Run()\<close> are not part of
  the model.
\<close>

text \<open>
  The object \<^verbatim>\<open>GetState\<close> returns is a \<^verbatim>\<open>GameState\<close> whose pointers do not all point into
  itself: the scalar fields are copied and every player is copied into a new object,
  but \<^verbatim>\<open>Winner\<close> is copied as a pointer, so it still points at the player object of the live
  game, not at that player's copy. The snapshot is therefore a record of its own:
  \<open>Copy_Players\<close> are the copied players, and \<open>Copy_Winner\<close> is the position, in the
  \<^emph>\<open>live\<close> game's slice, of the player the pointer refers to (a later write to that
  player shows through it, and does not show in \<open>Copy_Players\<close>).
\<close>

record StateCopy =
  Copy_GameID :: string
  Copy_Players :: "Player list"
  Copy_CurrentPlayer :: int64
  Copy_TurnScore :: int64
  Copy_LastRoll :: int64
  Copy_WinningScore :: int64
  Copy_Winner :: "nat option"
  Copy_IsGameOver :: bool
  Copy_CreatedAt :: nat
  Copy_LastActivityAt :: nat

record Message =
  Type :: string
  Action :: string
  Msg_PlayerID :: string
  Msg_GameState :: "StateCopy option"
  Data :: "(string \<times> string) list"
  Error :: string
  Timestamp :: nat

definition NewMessage :: "nat \<Rightarrow> string \<Rightarrow> Message" where
  "NewMessage now msgType =
     \<lparr>Type = msgType, Action = [], Msg_PlayerID = [], Msg_GameState = None, Data = [],
      Error = [], Timestamp = now\<rparr>"

record PlayerConnection =
  PlayerID :: string
  PlayerName :: string
  Conn_GameID :: string
  Send :: "Message list"

record Match =
  Match_ID :: string
  Game :: GameState
  Match_Players :: "(string \<times> PlayerConnection) list"
  MinPlayers :: int64
  MaxPlayers :: int64
  IsStarted :: bool
  Broadcast :: "Message list"
  Match_CreatedAt :: nat
  Match_LastActivityAt :: nat

record MatchManager =
  matches :: "(string \<times> Match) list"
  waitingRoom :: "Match option"

definition GetState :: "GameState \<Rightarrow> StateCopy" where
  "GetState g =
     \<lparr>Copy_GameID = GameID g,
      Copy_Players = map (\<lambda>player. \<lparr>ID = ID player, Name = Name player,
                                     Score = Score player, IsActive = IsActive player\<rparr>)
                       (Players g),
      Copy_CurrentPlayer = CurrentPlayer g, Copy_TurnScore = TurnScore g,
      Copy_LastRoll = LastRoll g, Copy_WinningScore = WinningScore g,
      Copy_Winner = Winner g, Copy_IsGameOver = IsGameOver g,
      Copy_CreatedAt = CreatedAt g, Copy_LastActivityAt = LastActivityAt g\<rparr>"

text \<open>
  \<^verbatim>\<open>NewMatch\<close> draws a second UUID inside \<^verbatim>\<open>NewPigGame\<close> for the game's own state.
\<close>

definition NewMatch :: "string \<Rightarrow> string \<Rightarrow> nat \<Rightarrow> int64 \<Rightarrow> Match" where
  "NewMatch gameID uuid now winningScore =
     \<lparr>Match_ID = gameID, Game = NewPigGame uuid now winningScore, Match_Players = [],
      MinPlayers = 2, MaxPlayers = 4, IsStarted = False, Broadcast = [],
      Match_CreatedAt = now, Match_LastActivityAt = now\<rparr>"

definition FindOrCreateMatch ::
    "string \<Rightarrow> string \<Rightarrow> nat \<Rightarrow> int64 \<Rightarrow> MatchManager \<Rightarrow> Match \<times> MatchManager" where
  "FindOrCreateMatch uuid1 uuid2 now winningScore mm =
     (let state = NewGameState uuid1 now winningScore;
          match = NewMatch (GameID state) uuid2 now winningScore;
          created = (match, mm\<lparr>matches := AList.update (Match_ID match) match (matches mm),
                               waitingRoom := Some match\<rparr>)
      in case waitingRoom mm of
           None \<Rightarrow> created
         | Some w \<Rightarrow>
             if \<not> IsStarted w \<and> len (Match_Players w) <s MaxPlayers w then (w, mm)
             else created)"

text \<open>
  \<^verbatim>\<open>handleRegister\<close> returns the match and the joining connection as the call leaves them.
  \<open>uuid\<close> is the identifier \<^verbatim>\<open>NewPlayer\<close> draws before the handler overwrites it.
\<close>

definition handleRegister ::
    "nat \<Rightarrow> string \<Rightarrow> PlayerConnection \<Rightarrow> Match \<Rightarrow> Match \<times> PlayerConnection" where
  "handleRegister now uuid conn m =
     (let m1 = m\<lparr>Match_Players := AList.update (PlayerID conn) conn (Match_Players m),
                 Match_LastActivityAt := now\<rparr>;
          player = (NewPlayer uuid (PlayerName conn))\<lparr>ID := PlayerID conn\<rparr>
      in case AddPlayer now player (Game m1) of
           (Some err, game1) \<Rightarrow>
             (m1\<lparr>Game := game1,
                 Match_Players := AList.delete (PlayerID conn) (Match_Players m1)\<rparr>, conn)
         | (None, game1) \<Rightarrow>
             (let joinedMsg = (NewMessage now ''joined'')
                    \<lparr>Msg_PlayerID := PlayerID conn, Msg_GameState := Some (GetState game1)\<rparr>;
                  conn1 = conn\<lparr>Send := Send conn @ [joinedMsg]\<rparr>;
                  updateMsg = (NewMessage now ''game_update'')
                    \<lparr>Msg_GameState := Some (GetState game1),
                     Data := [(''event'', ''player_joined''), (''player_name'', Name player)]\<rparr>;
                  m2 = m1\<lparr>Game := game1,
                          Match_Players := AList.update (PlayerID conn) conn1 (Match_Players m1),
                          Broadcast := Broadcast m1 @ [updateMsg]\<rparr>
              in if CanStart (Game m2) \<and> \<not> IsStarted m2
                 then (let m3 = m2\<lparr>IsStarted := True\<rparr>
                       in case Start now (Game m3) of
                            (Some err, game2) \<Rightarrow> (m3\<lparr>Game := game2\<rparr>, conn1)
                          | (None, game2) \<Rightarrow>
                              (let startMsg = (NewMessage now ''game_start'')
                                     \<lparr>Msg_GameState := Some (GetState game2)\<rparr>
                               in (m3\<lparr>Game := game2, Broadcast := Broadcast m3 @ [startMsg]\<rparr>,
                                   conn1)))
                 else (m2, conn1)))"


subsection \<open>Example sessions\<close>

definition alice :: Player where
  "alice = NewPlayer ''a'' ''Alice''"

definition bob :: Player where
  "bob = NewPlayer ''b'' ''Bob''"

definition carol :: Player where
  "carol = NewPlayer ''c'' ''Carol''"

text \<open>A session with target 20 that Alice and Bob have joined; it is Alice's turn.\<close>

definition two_players :: GameState where
  "two_players = (NewPigGame ''g'' 0 20)\<lparr>Players := [alice, bob]\<rparr>"

text \<open>
  A session with target 2 and three participants: Alice has banked 2 and won, Bob has
  left.
\<close>

definition three_won :: GameState where
  "three_won = (NewPigGame ''g'' 0 2)
     \<lparr>Players := [alice\<lparr>Score := 2\<rparr>, bob\<lparr>IsActive := False\<rparr>, carol],
      LastRoll := 2, Winner := Some 0, IsGameOver := True, LastActivityAt := 5\<rparr>"

text \<open>The session of Alice and Bob after Alice has left.\<close>

definition alice_left :: GameState where
  "alice_left = two_players
     \<lparr>Players := [alice\<lparr>IsActive := False\<rparr>, bob], CurrentPlayer := 1, Winner := Some 1,
      IsGameOver := True, LastActivityAt := 3\<rparr>"

text \<open>A session that Alice alone joined and then left.\<close>

definition lone_left :: GameState where
  "lone_left = (NewPigGame ''g'' 0 20)
     \<lparr>Players := [alice\<lparr>IsActive := False\<rparr>], IsGameOver := True, LastActivityAt := 2\<rparr>"

lemmas example_defs =
  alice_def bob_def carol_def two_players_def three_won_def alice_left_def lone_left_def
  NewPlayer_def NewPigGame_def NewGameState_def

text \<open>
  A match that Alice and Bob have joined and that has started, with their connections,
  and a second connection that presents Alice's participant id.
\<close>

definition alice_conn :: PlayerConnection where
  "alice_conn = \<lparr>PlayerID = ''a'', PlayerName = ''Alice'', Conn_GameID = ''m'', Send = []\<rparr>"

definition bob_conn :: PlayerConnection where
  "bob_conn = \<lparr>PlayerID = ''b'', PlayerName = ''Bob'', Conn_GameID = ''m'', Send = []\<rparr>"

definition second_alice_conn :: PlayerConnection where
  "second_alice_conn = \<lparr>PlayerID = ''a'', PlayerName = ''Alice again'', Conn_GameID = ''m'', Send = []\<rparr>"

definition started_match :: Match where
  "started_match = (NewMatch ''m'' ''g'' 0 20)
     \<lparr>Game := two_players, Match_Players := [(''a'', alice_conn), (''b'', bob_conn)],
      IsStarted := True\<rparr>"

text \<open>The directory before any match was created.\<close>

definition empty_manager :: MatchManager where
  "empty_manager = \<lparr>matches = [], waitingRoom = None\<rparr>"

lemmas match_defs = alice_conn_def bob_conn_def second_alice_conn_def started_match_def
  empty_manager_def NewMatch_def

subsection \<open>Invariants of the sessions the operations build\<close>

text \<open>
  The current-turn index addresses a participant (or is 0 in an empty session), and at
  most four participants have joined.
\<close>

definition turn_in_range :: "GameState \<Rightarrow> bool" where
  "turn_in_range g \<longleftrightarrow>
     length (Players g) \<le> 4 \<and>
     (\<exists>c. CurrentPlayer g = word_of_nat c \<and> (c < length (Players g) \<or> c = 0 \<and> Players g = []))"

text \<open>A winner is recorded only in a session that is over.\<close>

definition winner_only_if_over :: "GameState \<Rightarrow> bool" where
  "winner_only_if_over g \<longleftrightarrow> (Winner g \<noteq> None \<longrightarrow> IsGameOver g)"

text \<open>A session that is over and still has an active participant has a winner.\<close>

definition over_has_winner :: "GameState \<Rightarrow> bool" where
  "over_has_winner g \<longleftrightarrow>
     (IsGameOver g \<and> (\<exists>p \<in> set (Players g). IsActive p) \<longrightarrow> Winner g \<noteq> None)"

definition session_inv :: "GameState \<Rightarrow> bool" where
  "session_inv g \<longleftrightarrow> turn_in_range g \<and> winner_only_if_over g \<and> over_has_winner g"

section \<open>Auxiliary facts\<close>

subsection \<open>64-bit arithmetic on indices\<close>

lemma sint_of_nat64: "n < 2 ^ 63 \<Longrightarrow> sint (word_of_nat n :: int64) = int n"
proof -
  assume n: "n < 2 ^ 63"
  have "int n < int (2 ^ 63)"
    using n by (rule iffD2 [OF of_nat_less_iff])
  then have lt: "int n < 2 ^ 63" by simp
  have "sint (word_of_int (int n) :: int64) = signed_take_bit (LENGTH(64) - 1) (int n)"
    by (rule sint_sbintrunc')
  also have "\<dots> = int n"
    using lt by (intro signed_take_bit_int_eq_self) simp_all
  finally show ?thesis by simp
qed

lemma sint_len: "length xs < 2 ^ 63 \<Longrightarrow> sint (len xs) = int (length xs)"
  by (simp add: len_def sint_of_nat64)

lemma word_of_nat64_inj:
  assumes "m < 2 ^ 63" "n < 2 ^ 63" "(word_of_nat m :: int64) = word_of_nat n"
  shows "m = n"
proof -
  have "int m = sint (word_of_nat m :: int64)"
    using assms(1) by (rule sint_of_nat64 [symmetric])
  also have "\<dots> = sint (word_of_nat n :: int64)"
    using assms(3) by (rule arg_cong)
  also have "\<dots> = int n"
    using assms(2) by (rule sint_of_nat64)
  finally show ?thesis by simp
qed

lemma go_rem_step:
  assumes "c < n" "n < 2 ^ 63"
  shows "go_rem (word_of_nat c + 1) (word_of_nat n) = word_of_nat ((c + 1) mod n)"
proof -
  have "Suc c \<le> n"
    using assms(1) by (rule Suc_leI)
  then have "Suc c < 2 ^ 63"
    using assms(2) by (rule le_less_trans)
  then have "sint (word_of_nat (Suc c) :: int64) = int (Suc c)"
    by (rule sint_of_nat64)
  then have c1: "sint (word_of_nat c + 1 :: int64) = int (Suc c)"
    by (simp add: add.commute)
  have n: "sint (word_of_nat n :: int64) = int n"
    using assms(2) by (rule sint_of_nat64)
  have "int (Suc c) smod int n = int (Suc c) mod int n"
    by (simp add: signed_modulo_int_def sgn_if)
  also have "\<dots> = int (Suc c mod n)"
    by (rule zmod_int [symmetric])
  finally have "sint (word_of_nat c + 1 :: int64) smod sint (word_of_nat n :: int64) = int (Suc c mod n)"
    by (simp only: c1 n)
  then show ?thesis
    by (simp add: go_rem_def)
qed

lemma slice_index_of_nat: "c < length xs \<Longrightarrow> length xs < 2 ^ 63 \<Longrightarrow> slice_index xs (word_of_nat c) = Some (xs ! c)"
proof -
  assume a: "c < length xs" "length xs < 2 ^ 63"
  then have "c < 2 ^ 63" by (rule less_trans)
  then have "sint (word_of_nat c :: int64) = int c" by (rule sint_of_nat64)
  then show ?thesis using a(1) by (simp add: slice_index_def)
qed

lemma slice_index_SomeD: "slice_index xs i = Some x \<Longrightarrow> 0 \<le> sint i \<and> nat (sint i) < length xs \<and> x = xs ! nat (sint i) \<and> i = word_of_nat (nat (sint i))"
  by (auto simp: slice_index_def split: if_splits)

subsection \<open>The loop of nextTurn\<close>

declare nextTurn_loop.simps [simp del]

lemma nextTurn_loop_step:
  assumes n: "length (Players g) < 2 ^ 63" and i: "i < length (Players g)"
    and cp: "CurrentPlayer g = word_of_nat ((s + i) mod length (Players g))"
  shows "nextTurn_loop startIdx i g =
     (if IsActive (Players g ! (Suc (s + i) mod length (Players g)))
      then Returns () (g\<lparr>CurrentPlayer := word_of_nat (Suc (s + i) mod length (Players g)), LastRoll := 0\<rparr>)
      else if word_of_nat (Suc (s + i) mod length (Players g)) = startIdx \<and> i = length (Players g) - 1
        then Returns () (g\<lparr>CurrentPlayer := word_of_nat (Suc (s + i) mod length (Players g)), IsGameOver := True\<rparr>)
        else nextTurn_loop startIdx (i + 1) (g\<lparr>CurrentPlayer := word_of_nat (Suc (s + i) mod length (Players g))\<rparr>))"
proof -
  let ?n = "length (Players g)"
  have pos: "0 < ?n" using i by (rule le_less_trans [OF le0])
  have lt: "(s + i) mod ?n < ?n" using pos by simp
  have rem: "go_rem (CurrentPlayer g + 1) (len (Players g)) = word_of_nat (Suc (s + i) mod ?n)"
    unfolding cp len_def using go_rem_step [OF lt n] by (simp add: mod_Suc_eq)
  have lt1: "Suc (s + i) mod ?n < ?n" using pos by simp
  have idx: "slice_index (Players g) (word_of_nat (Suc (s + i) mod ?n)) = Some (Players g ! (Suc (s + i) mod ?n))"
    using lt1 n by (rule slice_index_of_nat)
  show ?thesis
    by (subst nextTurn_loop.simps) (simp add: i rem idx Let_def)
qed

lemma nextTurn_loop_active:
  assumes "length (Players g) < 2 ^ 63" "i < length (Players g)"
    and "CurrentPlayer g = word_of_nat ((s + i) mod length (Players g))"
    and "IsActive (Players g ! (Suc (s + i) mod length (Players g)))"
  shows "nextTurn_loop startIdx i g =
     Returns () (g\<lparr>CurrentPlayer := word_of_nat (Suc (s + i) mod length (Players g)), LastRoll := 0\<rparr>)"
  using assms(4) by (simp add: nextTurn_loop_step [OF assms(1,2,3)])

lemma nextTurn_loop_next:
  assumes "length (Players g) < 2 ^ 63" "Suc i < length (Players g)"
    and "CurrentPlayer g = word_of_nat ((s + i) mod length (Players g))"
    and "\<not> IsActive (Players g ! (Suc (s + i) mod length (Players g)))"
  shows "nextTurn_loop startIdx i g =
     nextTurn_loop startIdx (Suc i) (g\<lparr>CurrentPlayer := word_of_nat (Suc (s + i) mod length (Players g))\<rparr>)"
proof -
  have i: "i < length (Players g)" using assms(2) by (rule Suc_lessD)
  have "i \<noteq> length (Players g) - 1" using assms(2) by arith
  then show ?thesis
    using assms(4) by (simp add: nextTurn_loop_step [OF assms(1) i assms(3)])
qed

lemma nextTurn_loop_last:
  assumes "length (Players g) < 2 ^ 63" "s < length (Players g)"
    and "CurrentPlayer g = word_of_nat ((s + (length (Players g) - 1)) mod length (Players g))"
    and "\<not> IsActive (Players g ! s)"
  shows "nextTurn_loop (word_of_nat s) (length (Players g) - 1) g =
     Returns () (g\<lparr>CurrentPlayer := word_of_nat s, IsGameOver := True\<rparr>)"
proof -
  let ?n = "length (Players g)"
  have i: "?n - 1 < ?n" using assms(2) by arith
  have "Suc (s + (?n - 1)) = s + ?n" using assms(2) by arith
  then have eq: "Suc (s + (?n - 1)) mod ?n = s"
    using assms(2) by (simp only: mod_add_self2 mod_less)
  show ?thesis
    by (subst nextTurn_loop_step [OF assms(1) i assms(3)])
      (simp only: eq assms(4) if_False if_True simp_thms)
qed

lemma nextTurn_loop_found:
  assumes "length (Players g) < 2 ^ 63" "s < length (Players g)" "i < length (Players g)"
    and "CurrentPlayer g = word_of_nat ((s + i) mod length (Players g))"
    and "\<forall>j \<in> {1..i}. \<not> IsActive (Players g ! ((s + j) mod length (Players g)))"
    and "\<exists>k \<in> {1..length (Players g)}. IsActive (Players g ! ((s + k) mod length (Players g)))"
  shows "\<exists>c'. first_active_after (Players g) s c' \<and>
           nextTurn_loop (word_of_nat s) i g = Returns () (g\<lparr>CurrentPlayer := word_of_nat c', LastRoll := 0\<rparr>)"
  using assms
proof (induction "length (Players g) - i" arbitrary: i g)
  case 0
  then show ?case by simp
next
  case (Suc d)
  let ?n = "length (Players g)"
  let ?c1 = "Suc (s + i) mod ?n"
  let ?g1 = "g\<lparr>CurrentPlayer := word_of_nat ?c1\<rparr>"
  show ?case
  proof (cases "IsActive (Players g ! ?c1)")
    case True
    have "first_active_after (Players g) s ?c1"
      unfolding first_active_after_def
    proof (rule bexI [of _ "Suc i"])
      show "?c1 = (s + Suc i) mod ?n \<and> IsActive (Players g ! ?c1) \<and>
          (\<forall>j\<in>{1..<Suc i}. \<not> IsActive (Players g ! ((s + j) mod ?n)))"
        using True Suc.prems(5) by auto
      show "Suc i \<in> {1..?n}" using Suc.prems(3) by auto
    qed
    moreover have "nextTurn_loop (word_of_nat s) i g = Returns () (g\<lparr>CurrentPlayer := word_of_nat ?c1, LastRoll := 0\<rparr>)"
      using Suc.prems(1,3,4) True by (rule nextTurn_loop_active)
    ultimately show ?thesis by blast
  next
    case False
    have inact: "\<forall>j \<in> {1..Suc i}. \<not> IsActive (Players g ! ((s + j) mod ?n))"
    proof
      fix j assume j: "j \<in> {1..Suc i}"
      show "\<not> IsActive (Players g ! ((s + j) mod ?n))"
      proof (cases "j = Suc i")
        case True with False show ?thesis by simp
      next
        case False with j have "j \<in> {1..i}" by auto
        with Suc.prems(5) show ?thesis by blast
      qed
    qed
    have lt: "Suc i < ?n"
    proof (rule ccontr)
      assume "\<not> Suc i < ?n"
      with Suc.prems(3) have "Suc i = ?n" by arith
      with inact have "\<forall>j \<in> {1..?n}. \<not> IsActive (Players g ! ((s + j) mod ?n))" by metis
      with Suc.prems(6) show False by blast
    qed
    have d: "d = length (Players ?g1) - Suc i" using Suc.hyps(2) by simp
    have "\<exists>c'. first_active_after (Players ?g1) s c' \<and>
           nextTurn_loop (word_of_nat s) (Suc i) ?g1 = Returns () (?g1\<lparr>CurrentPlayer := word_of_nat c', LastRoll := 0\<rparr>)"
      using Suc.prems(1,2,6) lt inact by (intro Suc.hyps(1) [OF d]) simp_all
    moreover have "nextTurn_loop (word_of_nat s) i g = nextTurn_loop (word_of_nat s) (Suc i) ?g1"
      using Suc.prems(1) lt Suc.prems(4) False by (rule nextTurn_loop_next)
    ultimately show ?thesis by simp
  qed
qed

lemma nextTurn_loop_none:
  assumes "length (Players g) < 2 ^ 63" "s < length (Players g)" "i < length (Players g)"
    and "CurrentPlayer g = word_of_nat ((s + i) mod length (Players g))"
    and "\<forall>k \<in> {1..length (Players g)}. \<not> IsActive (Players g ! ((s + k) mod length (Players g)))"
  shows "nextTurn_loop (word_of_nat s) i g = Returns () (g\<lparr>CurrentPlayer := word_of_nat s, IsGameOver := True\<rparr>)"
  using assms
proof (induction "length (Players g) - i" arbitrary: i g)
  case 0
  then show ?case by simp
next
  case (Suc d)
  let ?n = "length (Players g)"
  let ?c1 = "Suc (s + i) mod ?n"
  let ?g1 = "g\<lparr>CurrentPlayer := word_of_nat ?c1\<rparr>"
  have "Suc i \<in> {1..?n}" using Suc.prems(3) by auto
  with Suc.prems(5) have "\<not> IsActive (Players g ! ((s + Suc i) mod ?n))"
    by blast
  then have inact: "\<not> IsActive (Players g ! ?c1)" by simp
  show ?case
  proof (cases "Suc i = ?n")
    case True
    then have i: "i = ?n - 1" by arith
    have "?n \<in> {1..?n}" using Suc.prems(2) by auto
    with Suc.prems(5) have "\<not> IsActive (Players g ! ((s + ?n) mod ?n))" by blast
    then have s: "\<not> IsActive (Players g ! s)" using Suc.prems(2) by simp
    have cp: "CurrentPlayer g = word_of_nat ((s + (?n - 1)) mod ?n)"
      using Suc.prems(4) unfolding i [symmetric] .
    show ?thesis
      unfolding i using Suc.prems(1,2) cp s by (rule nextTurn_loop_last)
  next
    case False
    with Suc.prems(3) have lt: "Suc i < ?n" by simp
    have d: "d = length (Players ?g1) - Suc i" using Suc.hyps(2) by simp
    have "nextTurn_loop (word_of_nat s) (Suc i) ?g1 = Returns () (?g1\<lparr>CurrentPlayer := word_of_nat s, IsGameOver := True\<rparr>)"
      using Suc.prems(1,2,5) lt by (intro Suc.hyps(1) [OF d]) simp_all
    moreover have "nextTurn_loop (word_of_nat s) i g = nextTurn_loop (word_of_nat s) (Suc i) ?g1"
      using Suc.prems(1) lt Suc.prems(4) inact by (rule nextTurn_loop_next)
    ultimately show ?thesis by simp
  qed
qed

subsection \<open>nextTurn\<close>

lemma cyclic_cover:
  assumes "j < n" "c < (n::nat)"
  shows "\<exists>k \<in> {1..n}. (c + k) mod n = j"
proof (cases "c < j")
  case True
  then have "j - c \<in> {1..n}" using assms by auto
  moreover have "(c + (j - c)) mod n = j" using True assms by simp
  ultimately show ?thesis by blast
next
  case False
  then have "n + j - c \<in> {1..n}" using assms by auto
  moreover have "c + (n + j - c) = j + n" using False assms by arith
  then have "(c + (n + j - c)) mod n = j" using assms by simp
  ultimately show ?thesis by blast
qed

lemma active_reachable:
  assumes "c < length ps" "p \<in> set ps" "IsActive p"
  shows "\<exists>k \<in> {1..length ps}. IsActive (ps ! ((c + k) mod length ps))"
proof -
  from assms(2) obtain j where j: "j < length ps" "ps ! j = p"
    by (auto simp: in_set_conv_nth)
  from cyclic_cover [OF j(1) assms(1)] obtain k where "k \<in> {1..length ps}" "(c + k) mod length ps = j"
    by blast
  with j assms(3) show ?thesis by auto
qed

lemma nextTurn_found:
  assumes "length (Players g) < 2 ^ 63" "c < length (Players g)"
    and "CurrentPlayer g = word_of_nat c"
    and "\<exists>p \<in> set (Players g). IsActive p"
  shows "\<exists>c'. first_active_after (Players g) c c' \<and>
           nextTurn g = Returns () (g\<lparr>CurrentPlayer := word_of_nat c', LastRoll := 0\<rparr>)"
proof -
  have ne: "length (Players g) \<noteq> 0" using assms(2) by auto
  have cp: "CurrentPlayer g = word_of_nat ((c + 0) mod length (Players g))"
    using assms(2,3) by simp
  have ex: "\<exists>k \<in> {1..length (Players g)}. IsActive (Players g ! ((c + k) mod length (Players g)))"
    using assms(2,4) active_reachable by blast
  have "\<exists>c'. first_active_after (Players g) c c' \<and>
           nextTurn_loop (word_of_nat c) 0 g = Returns () (g\<lparr>CurrentPlayer := word_of_nat c', LastRoll := 0\<rparr>)"
    using assms(1,2) _ cp _ ex by (rule nextTurn_loop_found) (use assms(2) in auto)
  then show ?thesis
    using ne by (simp add: nextTurn_def assms(3))
qed

lemma nextTurn_none:
  assumes "length (Players g) < 2 ^ 63" "c < length (Players g)"
    and "CurrentPlayer g = word_of_nat c"
    and "\<forall>p \<in> set (Players g). \<not> IsActive p"
  shows "nextTurn g = Returns () (g\<lparr>IsGameOver := True\<rparr>)"
proof -
  have ne: "length (Players g) \<noteq> 0" using assms(2) by auto
  have cp: "CurrentPlayer g = word_of_nat ((c + 0) mod length (Players g))"
    using assms(2,3) by simp
  have pos: "0 < length (Players g)" using assms(2) by auto
  have all: "\<forall>k \<in> {1..length (Players g)}. \<not> IsActive (Players g ! ((c + k) mod length (Players g)))"
    using assms(4) pos by (auto simp: all_set_conv_all_nth)
  have "nextTurn_loop (word_of_nat c) 0 g = Returns () (g\<lparr>CurrentPlayer := word_of_nat c, IsGameOver := True\<rparr>)"
    using assms(1,2) pos cp all by (rule nextTurn_loop_none)
  moreover have "g\<lparr>CurrentPlayer := word_of_nat c\<rparr> = g"
    using assms(3) by simp
  ultimately show ?thesis
    using ne by (simp add: nextTurn_def assms(3))
qed

lemma nextTurn_loop_inv:
  "nextTurn_loop startIdx i g = Returns u g' \<Longrightarrow>
     Players g' = Players g \<and> Winner g' = Winner g \<and> (IsGameOver g \<longrightarrow> IsGameOver g') \<and>
     TurnScore g' = TurnScore g \<and> LastActivityAt g' = LastActivityAt g \<and> WinningScore g' = WinningScore g"
proof (induction startIdx i g rule: nextTurn_loop.induct)
  case (1 startIdx i g)
  show ?case
  proof (cases "i < length (Players g)")
    case False
    with "1.prems" show ?thesis
      by (subst (asm) nextTurn_loop.simps) auto
  next
    case True
    let ?g1 = "g\<lparr>CurrentPlayer := go_rem (CurrentPlayer g + 1) (len (Players g))\<rparr>"
    from "1.prems" True obtain p where p: "slice_index (Players ?g1) (CurrentPlayer ?g1) = Some p"
      by (subst (asm) nextTurn_loop.simps) (auto simp: Let_def split: option.splits)
    show ?thesis
    proof (cases "IsActive p \<or> (CurrentPlayer ?g1 = startIdx \<and> i = length (Players ?g1) - 1)")
      case True
      with "1.prems" \<open>i < length (Players g)\<close> p show ?thesis
        by (subst (asm) nextTurn_loop.simps) (auto simp: Let_def split: if_splits)
    next
      case False
      with "1.prems" \<open>i < length (Players g)\<close> p
      have "nextTurn_loop startIdx (i + 1) ?g1 = Returns u g'"
        by (subst (asm) nextTurn_loop.simps) (auto simp: Let_def split: if_splits)
      moreover from False have "\<not> IsActive p" "\<not> (CurrentPlayer ?g1 = startIdx \<and> i = length (Players ?g1) - 1)"
        by auto
      ultimately have "Players g' = Players ?g1 \<and> Winner g' = Winner ?g1 \<and> (IsGameOver ?g1 \<longrightarrow> IsGameOver g') \<and>
     TurnScore g' = TurnScore ?g1 \<and> LastActivityAt g' = LastActivityAt ?g1 \<and> WinningScore g' = WinningScore ?g1"
        using "1.IH" [OF \<open>i < length (Players g)\<close> refl p] by blast
      then show ?thesis by simp
    qed
  qed
qed

lemma nextTurn_inv:
  "nextTurn g = Returns u g' \<Longrightarrow>
     Players g' = Players g \<and> Winner g' = Winner g \<and> (IsGameOver g \<longrightarrow> IsGameOver g') \<and>
     TurnScore g' = TurnScore g \<and> LastActivityAt g' = LastActivityAt g \<and> WinningScore g' = WinningScore g"
  by (auto simp: nextTurn_def split: if_splits dest: nextTurn_loop_inv)

subsection \<open>Searching a slice\<close>

lemma first_index_None: "first_index P xs = None \<longleftrightarrow> (\<forall>x \<in> set xs. \<not> P x)"
  by (induction xs) auto

lemma first_index_SomeD:
  "first_index P xs = Some i \<Longrightarrow> i < length xs \<and> P (xs ! i) \<and> (\<forall>j < i. \<not> P (xs ! j))"
proof (induction xs arbitrary: i)
  case Nil
  then show ?case by simp
next
  case (Cons x xs)
  show ?case
  proof (cases "P x")
    case True
    with Cons.prems show ?thesis by simp
  next
    case False
    with Cons.prems obtain i' where i': "first_index P xs = Some i'" "i = Suc i'"
      by auto
    from Cons.IH [OF i'(1)] False i'(2) show ?thesis
      by (auto simp: nth_Cons split: nat.splits)
  qed
qed

lemma nextTurn_total:
  assumes "length (Players g) < 2 ^ 63" "c < length (Players g)" "CurrentPlayer g = word_of_nat c"
  shows "\<exists>g'. nextTurn g = Returns () g'"
proof (cases "\<exists>p \<in> set (Players g). IsActive p")
  case True
  with nextTurn_found [OF assms] show ?thesis by blast
next
  case False
  with nextTurn_none [OF assms] show ?thesis by blast
qed

lemma RemovePlayer_total:
  assumes "length (Players g) < 2 ^ 63"
  shows "\<exists>e g'. RemovePlayer now pid g = Returns e g' \<and> length (Players g') = length (Players g) \<and>
           (IsGameOver g \<longrightarrow> IsGameOver g')"
proof (cases "first_index (\<lambda>p. ID p = pid) (Players g)")
  case None
  then show ?thesis by (simp add: RemovePlayer_def)
next
  case (Some i)
  then have i: "i < length (Players g)" by (auto dest: first_index_SomeD)
  let ?g1 = "g\<lparr>Players := (Players g)[i := (Players g ! i)\<lparr>IsActive := False\<rparr>]\<rparr>"
  let ?g2 = "(if length (filter IsActive (Players ?g1)) \<le> 1 \<and> length (Players ?g1) > 1
                     then (case first_index IsActive (Players ?g1) of
                             Some j \<Rightarrow> ?g1\<lparr>IsGameOver := True, Winner := Some j\<rparr>
                           | None \<Rightarrow> ?g1\<lparr>IsGameOver := True\<rparr>)
                     else ?g1)"
  have g2: "length (Players ?g2) = length (Players g)" "IsGameOver g \<longrightarrow> IsGameOver ?g2"
    by (auto split: option.splits)
  show ?thesis
  proof (cases "word_of_nat i = CurrentPlayer ?g2")
    case False
    then show ?thesis
      using Some g2 by (simp add: RemovePlayer_def Let_def)
  next
    case True
    have "\<exists>g3. nextTurn ?g2 = Returns () g3"
      using assms i g2(1) True [symmetric] by (intro nextTurn_total [where c = i]) simp_all
    then obtain g3 where g3: "nextTurn ?g2 = Returns () g3" by blast
    from nextTurn_inv [OF g3] g2 have "length (Players g3) = length (Players g)" "IsGameOver g \<longrightarrow> IsGameOver g3"
      by auto
    then show ?thesis
      using Some True g3 by (simp add: RemovePlayer_def Let_def)
  qed
qed

lemma apply_op_over:
  assumes "IsGameOver g" "length (Players g) < 2 ^ 63"
  shows "\<exists>g'. apply_op x g = Some g' \<and> IsGameOver g' \<and> length (Players g') = length (Players g)"
proof (cases x)
  case (OpRemovePlayer now pid)
  from RemovePlayer_total [OF assms(2), of now pid] assms(1) show ?thesis
    unfolding OpRemovePlayer by auto
qed (use assms in \<open>auto simp: AddPlayer_def Start_def Roll_def Hold_def\<close>)

lemma run_over:
  assumes "IsGameOver g" "length (Players g) < 2 ^ 63"
  shows "\<exists>g'. run ops g = Some g' \<and> IsGameOver g'"
  using assms
proof (induction ops arbitrary: g)
  case Nil
  then show ?case by simp
next
  case (Cons x xs)
  from apply_op_over [OF Cons.prems, of x] obtain g1
    where g1: "apply_op x g = Some g1" "IsGameOver g1" "length (Players g1) = length (Players g)"
    by blast
  with Cons.prems(2) have "length (Players g1) < 2 ^ 63" by simp
  from Cons.IH [OF g1(2) this] g1(1) show ?case by simp
qed

subsection \<open>The die\<close>

lemma Intn6_bounds: "1 \<le> sint (Intn rnd 6 + 1) \<and> sint (Intn rnd 6 + 1) \<le> 6"
proof -
  have "Suc (rnd mod 6) \<le> 6" by (simp add: Suc_le_eq)
  then have lt: "Suc (rnd mod 6) < 2 ^ 63" by (rule le_less_trans) simp
  have "Intn rnd 6 + 1 = (word_of_nat (Suc (rnd mod 6)) :: int64)"
    by (simp add: Intn_def)
  then have "sint (Intn rnd 6 + 1) = int (Suc (rnd mod 6))"
    using sint_of_nat64 [OF lt] by (simp only:)
  moreover have "rnd mod 6 < 6" by simp
  ultimately show ?thesis by linarith
qed

subsection \<open>RemovePlayer\<close>

lemma filter_le_one_unique:
  "length (filter P xs) \<le> 1 \<Longrightarrow> i < length xs \<Longrightarrow> j < length xs \<Longrightarrow> P (xs ! i) \<Longrightarrow> P (xs ! j) \<Longrightarrow> i = j"
proof (induction xs arbitrary: i j)
  case Nil
  then show ?case by simp
next
  case (Cons x xs)
  have nonempty: "k < length xs \<Longrightarrow> P (xs ! k) \<Longrightarrow> 0 < length (filter P xs)" for k
    by (auto simp: filter_empty_conv)
  show ?case
  proof (cases i)
    case 0
    show ?thesis
    proof (cases j)
      case 0
      with \<open>i = 0\<close> show ?thesis by simp
    next
      case (Suc j')
      with Cons.prems \<open>i = 0\<close> nonempty [of j'] show ?thesis by auto
    qed
  next
    case (Suc i')
    show ?thesis
    proof (cases j)
      case 0
      with Cons.prems Suc nonempty [of i'] show ?thesis by auto
    next
      case (Suc j')
      have "length (filter P xs) \<le> 1" using Cons.prems(1) by (auto split: if_splits)
      from Cons.IH [OF this, of i' j'] Cons.prems \<open>i = Suc i'\<close> Suc show ?thesis by auto
    qed
  qed
qed

lemma RemovePlayer_found:
  assumes n: "length (Players g) < 2 ^ 63"
    and i: "first_index (\<lambda>p. ID p = pid) (Players g) = Some i"
  shows "\<exists>g'. RemovePlayer now pid g = Returns None g' \<and>
     (let ps' = (Players g)[i := (Players g ! i)\<lparr>IsActive := False\<rparr>] in
        Players g' = ps' \<and>
        (if CurrentPlayer g = word_of_nat i
         then (if \<exists>p \<in> set ps'. IsActive p
               then \<exists>c'. first_active_after ps' i c' \<and> CurrentPlayer g' = word_of_nat c'
               else CurrentPlayer g' = CurrentPlayer g \<and> IsGameOver g')
         else CurrentPlayer g' = CurrentPlayer g) \<and>
        (length (filter IsActive ps') \<le> 1 \<and> 2 \<le> length ps' \<longrightarrow>
           IsGameOver g' \<and> (\<forall>j < length ps'. IsActive (ps' ! j) \<longrightarrow> Winner g' = Some j)))"
proof -
  let ?ps = "(Players g)[i := (Players g ! i)\<lparr>IsActive := False\<rparr>]"
  let ?g1 = "g\<lparr>Players := ?ps\<rparr>"
  let ?end = "length (filter IsActive (Players ?g1)) \<le> 1 \<and> length (Players ?g1) > 1"
  let ?g2 = "(if ?end
              then (case first_index IsActive (Players ?g1) of
                      Some j \<Rightarrow> ?g1\<lparr>IsGameOver := True, Winner := Some j\<rparr>
                    | None \<Rightarrow> ?g1\<lparr>IsGameOver := True\<rparr>)
              else ?g1)"
  have il: "i < length (Players g)" using i by (auto dest: first_index_SomeD)
  have g2: "Players ?g2 = ?ps" "CurrentPlayer ?g2 = CurrentPlayer g"
    by (auto split: option.splits)
  have g1: "Players ?g1 = ?ps" by simp
  have win: "IsGameOver ?g2 \<and> (\<forall>j < length ?ps. IsActive (?ps ! j) \<longrightarrow> Winner ?g2 = Some j)"
    if e0: "length (filter IsActive ?ps) \<le> 1 \<and> 2 \<le> length ?ps"
  proof (cases "first_index IsActive ?ps")
    case None
    have e: "length (filter IsActive ?ps) \<le> Suc 0 \<and> Suc 0 < length (Players g)"
      using e0 by auto
    from None have "\<forall>j < length ?ps. \<not> IsActive (?ps ! j)"
      unfolding first_index_None by (metis nth_mem)
    with e None show ?thesis by simp
  next
    case (Some w)
    have e: "length (filter IsActive ?ps) \<le> Suc 0 \<and> Suc 0 < length (Players g)"
      using e0 by auto
    from Some have w: "w < length ?ps" "IsActive (?ps ! w)"
      by (auto dest: first_index_SomeD)
    have "\<forall>j < length ?ps. IsActive (?ps ! j) \<longrightarrow> j = w"
      using e0 w filter_le_one_unique [of IsActive ?ps _ w] by blast
    with e Some show ?thesis by simp
  qed
  have "RemovePlayer now pid g =
       (if word_of_nat i = CurrentPlayer ?g2
        then (case nextTurn ?g2 of Panics \<Rightarrow> Panics
              | Returns _ g3 \<Rightarrow> Returns None (g3\<lparr>LastActivityAt := now\<rparr>))
        else Returns None (?g2\<lparr>LastActivityAt := now\<rparr>))"
    by (simp only: RemovePlayer_def i option.case Let_def)
  then have unfold: "RemovePlayer now pid g =
       (if word_of_nat i = CurrentPlayer g
        then (case nextTurn ?g2 of Panics \<Rightarrow> Panics
              | Returns _ g3 \<Rightarrow> Returns None (g3\<lparr>LastActivityAt := now\<rparr>))
        else Returns None (?g2\<lparr>LastActivityAt := now\<rparr>))"
    unfolding g2(2) .
  show ?thesis
  proof (cases "CurrentPlayer g = word_of_nat i")
    case False
    then have "RemovePlayer now pid g = Returns None (?g2\<lparr>LastActivityAt := now\<rparr>)"
      unfolding unfold by auto
    with False win g2 show ?thesis
      by (simp add: Let_def del: One_nat_def)
  next
    case True
    have len2: "length (Players ?g2) < 2 ^ 63" "i < length (Players ?g2)" "CurrentPlayer ?g2 = word_of_nat i"
      using n il True unfolding g2 by simp_all
    show ?thesis
    proof (cases "\<exists>p \<in> set ?ps. IsActive p")
      case ex: True
      then have "\<exists>p \<in> set (Players ?g2). IsActive p" unfolding g2 .
      from nextTurn_found [OF len2 this] obtain c' where
        c': "first_active_after ?ps i c'"
        "nextTurn ?g2 = Returns () (?g2\<lparr>CurrentPlayer := word_of_nat c', LastRoll := 0\<rparr>)"
        unfolding g2 by blast
      have "RemovePlayer now pid g = Returns None (?g2\<lparr>CurrentPlayer := word_of_nat c', LastRoll := 0, LastActivityAt := now\<rparr>)"
        unfolding unfold c'(2) using True by simp
      moreover have "Players (?g2\<lparr>CurrentPlayer := word_of_nat c', LastRoll := 0, LastActivityAt := now\<rparr>) = ?ps"
        "CurrentPlayer (?g2\<lparr>CurrentPlayer := word_of_nat c', LastRoll := 0, LastActivityAt := now\<rparr>) = word_of_nat c'"
        "IsGameOver (?g2\<lparr>CurrentPlayer := word_of_nat c', LastRoll := 0, LastActivityAt := now\<rparr>) = IsGameOver ?g2"
        "Winner (?g2\<lparr>CurrentPlayer := word_of_nat c', LastRoll := 0, LastActivityAt := now\<rparr>) = Winner ?g2"
        using g2 by simp_all
      ultimately show ?thesis
        using True ex c'(1) win by (simp add: Let_def del: One_nat_def) blast
    next
      case nex: False
      then have "\<forall>p \<in> set (Players ?g2). \<not> IsActive p" unfolding g2 by blast
      from nextTurn_none [OF len2 this]
      have nt: "nextTurn ?g2 = Returns () (?g2\<lparr>IsGameOver := True\<rparr>)" .
      have "RemovePlayer now pid g = Returns None (?g2\<lparr>IsGameOver := True, LastActivityAt := now\<rparr>)"
        unfolding unfold nt using True by simp
      moreover have "Players (?g2\<lparr>IsGameOver := True, LastActivityAt := now\<rparr>) = ?ps"
        "CurrentPlayer (?g2\<lparr>IsGameOver := True, LastActivityAt := now\<rparr>) = CurrentPlayer g"
        "IsGameOver (?g2\<lparr>IsGameOver := True, LastActivityAt := now\<rparr>)"
        "Winner (?g2\<lparr>IsGameOver := True, LastActivityAt := now\<rparr>) = Winner ?g2"
        using g2 by simp_all
      ultimately show ?thesis
        using True nex win by (simp add: Let_def del: One_nat_def) 
    qed
  qed
qed

subsection \<open>Every operation keeps the invariants and returns\<close>

lemma first_active_after_less: "first_active_after ps c c' \<Longrightarrow> c' < length ps"
proof -
  assume "first_active_after ps c c'"
  then obtain k where k: "k \<in> {1..length ps}" "c' = (c + k) mod length ps"
    unfolding first_active_after_def by blast
  then have "0 < length ps" by auto
  with k(2) show ?thesis by simp
qed

lemma small_slice: "length xs \<le> 4 \<Longrightarrow> length xs < 2 ^ 63"
  by (erule le_less_trans) simp

lemma nextTurn_range:
  assumes "length (Players g) < 2 ^ 63" "c < length (Players g)" "CurrentPlayer g = word_of_nat c"
  shows "\<exists>g' c'. nextTurn g = Returns () g' \<and> CurrentPlayer g' = word_of_nat c' \<and>
           c' < length (Players g) \<and> Players g' = Players g \<and> Winner g' = Winner g \<and>
           (IsGameOver g \<longrightarrow> IsGameOver g') \<and>
           (IsGameOver g' \<longrightarrow> IsGameOver g \<or> (\<forall>p \<in> set (Players g). \<not> IsActive p))"
proof (cases "\<exists>p \<in> set (Players g). IsActive p")
  case True
  from nextTurn_found [OF assms True] obtain c' where
    "first_active_after (Players g) c c'"
    "nextTurn g = Returns () (g\<lparr>CurrentPlayer := word_of_nat c', LastRoll := 0\<rparr>)"
    by blast
  then show ?thesis
    by (auto dest: first_active_after_less)
next
  case False
  then have "nextTurn g = Returns () (g\<lparr>IsGameOver := True\<rparr>)"
    using nextTurn_none [OF assms] by blast
  with assms(2,3) False show ?thesis by auto
qed

lemma turn_in_range_index:
  assumes "turn_in_range g" "\<not> length (Players g) < 2"
  shows "\<exists>c. c < length (Players g) \<and> CurrentPlayer g = word_of_nat c \<and>
           slice_index (Players g) (CurrentPlayer g) = Some (Players g ! c)"
proof -
  from assms obtain c where c: "CurrentPlayer g = word_of_nat c" "c < length (Players g)"
    by (auto simp: turn_in_range_def)
  have "length (Players g) < 2 ^ 63"
    using assms(1) by (auto simp: turn_in_range_def intro: small_slice)
  with c show ?thesis
    by (auto simp: slice_index_of_nat)
qed

lemma session_inv_not_over:
  assumes "turn_in_range g'" "\<not> IsGameOver g'" "Winner g' = None"
  shows "session_inv g'"
  using assms by (simp add: session_inv_def winner_only_if_over_def over_has_winner_def)

lemma session_inv_no_winner: "session_inv g \<Longrightarrow> \<not> IsGameOver g \<Longrightarrow> Winner g = None"
  by (auto simp: session_inv_def winner_only_if_over_def)

lemma session_inv_same:
  assumes "session_inv g" "Players g' = Players g" "CurrentPlayer g' = CurrentPlayer g"
    "Winner g' = Winner g" "IsGameOver g' = IsGameOver g"
  shows "session_inv g'"
  using assms
  by (simp add: session_inv_def turn_in_range_def winner_only_if_over_def over_has_winner_def)

lemma active_after_deactivate:
  assumes "p \<in> set (ps[i := (ps ! i)\<lparr>IsActive := False\<rparr>])" "IsActive p"
  shows "p \<in> set ps"
proof -
  let ?x = "(ps ! i)\<lparr>IsActive := False\<rparr>"
  have "set (ps[i := ?x]) \<subseteq> insert ?x (set ps)"
    by (rule set_update_subset_insert)
  with assms(1) have "p = ?x \<or> p \<in> set ps" by blast
  moreover have "\<not> IsActive ?x" by simp
  ultimately show ?thesis using assms(2) by blast
qed

lemma AddPlayer_inv:
  assumes "session_inv g"
  shows "session_inv (snd (AddPlayer now player g))"
proof (cases "fst (AddPlayer now player g)")
  case (Some e)
  then have "snd (AddPlayer now player g) = g"
    by (auto simp: AddPlayer_def split: if_splits)
  with assms show ?thesis by simp
next
  case None
  then have *: "snd (AddPlayer now player g) = g\<lparr>Players := Players g @ [player], LastActivityAt := now\<rparr>"
    "\<not> length (Players g) \<ge> 4" "\<not> IsGameOver g"
    by (auto simp: AddPlayer_def split: if_splits)
  from assms obtain c where c: "CurrentPlayer g = word_of_nat c"
    "c < length (Players g) \<or> c = 0 \<and> Players g = []"
    by (auto simp: session_inv_def turn_in_range_def)
  have "turn_in_range (g\<lparr>Players := Players g @ [player], LastActivityAt := now\<rparr>)"
    unfolding turn_in_range_def using c *(2) by (intro conjI exI [of _ c]) auto
  moreover have "Winner g = None"
    using assms *(3) by (rule session_inv_no_winner)
  ultimately have "session_inv (g\<lparr>Players := Players g @ [player], LastActivityAt := now\<rparr>)"
    using *(3) by (intro session_inv_not_over) simp_all
  with *(1) show ?thesis by simp
qed

lemma Start_inv:
  assumes "session_inv g"
  shows "session_inv (snd (Start now g))"
proof -
  have "snd (Start now g) = g \<or> snd (Start now g) = g\<lparr>LastActivityAt := now\<rparr>"
    by (simp add: Start_def)
  with assms show ?thesis
    by (auto intro: session_inv_same)
qed

lemma Roll_inv:
  assumes "session_inv g"
  shows "\<exists>r g'. Roll now rnd pid g = Returns r g' \<and> session_inv g'"
proof (cases "IsGameOver g \<or> length (Players g) < 2")
  case True
  with assms show ?thesis by (auto simp: Roll_def)
next
  case False
  then have ng: "\<not> IsGameOver g" "\<not> length (Players g) < 2" by auto
  have tr: "turn_in_range g" using assms by (simp add: session_inv_def)
  from turn_in_range_index [OF tr ng(2)] obtain c where
    c: "c < length (Players g)" "CurrentPlayer g = word_of_nat c"
    "slice_index (Players g) (CurrentPlayer g) = Some (Players g ! c)"
    by blast
  have n: "length (Players g) < 2 ^ 63" "length (Players g) \<le> 4"
    using tr by (auto simp: turn_in_range_def intro: small_slice)
  have nw: "Winner g = None" using assms ng(1) by (rule session_inv_no_winner)
  show ?thesis
  proof (cases "ID (Players g ! c) \<noteq> pid \<or> \<not> IsActive (Players g ! c)")
    case True
    with assms ng c(3) show ?thesis by (auto simp: Roll_def)
  next
    case ok: False
    show ?thesis
    proof (cases "Intn rnd 6 + 1 = 1")
      case False
      with ok ng c(3) have "Roll now rnd pid g = Returns (Intn rnd 6 + 1, None)
          (g\<lparr>LastRoll := Intn rnd 6 + 1, LastActivityAt := now, TurnScore := TurnScore g + (Intn rnd 6 + 1)\<rparr>)"
        by (simp add: Roll_def Let_def)
      moreover have "session_inv (g\<lparr>LastRoll := Intn rnd 6 + 1, LastActivityAt := now, TurnScore := TurnScore g + (Intn rnd 6 + 1)\<rparr>)"
        using assms by (rule session_inv_same) simp_all
      ultimately show ?thesis by blast
    next
      case True
      let ?g1 = "g\<lparr>LastRoll := Intn rnd 6 + 1, LastActivityAt := now, TurnScore := 0\<rparr>"
      have "\<exists>g' c'. nextTurn ?g1 = Returns () g' \<and> CurrentPlayer g' = word_of_nat c' \<and>
           c' < length (Players ?g1) \<and> Players g' = Players ?g1 \<and> Winner g' = Winner ?g1 \<and>
           (IsGameOver ?g1 \<longrightarrow> IsGameOver g') \<and>
           (IsGameOver g' \<longrightarrow> IsGameOver ?g1 \<or> (\<forall>p \<in> set (Players ?g1). \<not> IsActive p))"
        using n(1) c(1,2) by (intro nextTurn_range) simp_all
      then obtain g' c' where g': "nextTurn ?g1 = Returns () g'" "CurrentPlayer g' = word_of_nat c'"
        "c' < length (Players g)" "Players g' = Players g" "Winner g' = Winner g"
        "IsGameOver g' \<longrightarrow> IsGameOver g \<or> (\<forall>p \<in> set (Players g). \<not> IsActive p)"
        by auto
      have "Players g ! c \<in> set (Players g)" using c(1) by simp
      with ok g'(6) ng(1) have no: "\<not> IsGameOver g'" by blast
      from ok ng c(3) True g'(1) have "Roll now rnd pid g = Returns (Intn rnd 6 + 1, None) g'"
        by (simp add: Roll_def Let_def)
      moreover have "turn_in_range g'"
        unfolding turn_in_range_def using g'(2,3,4) n(2) by auto
      then have "session_inv g'"
        using no g'(5) nw by (intro session_inv_not_over) simp_all
      ultimately show ?thesis by blast
    qed
  qed
qed

lemma Hold_inv:
  assumes "session_inv g"
  shows "\<exists>r g'. Hold now pid g = Returns r g' \<and> session_inv g'"
proof (cases "IsGameOver g \<or> length (Players g) < 2")
  case True
  with assms show ?thesis by (auto simp: Hold_def)
next
  case False
  then have ng: "\<not> IsGameOver g" "\<not> length (Players g) < 2" by auto
  have tr: "turn_in_range g" using assms by (simp add: session_inv_def)
  from turn_in_range_index [OF tr ng(2)] obtain c where
    c: "c < length (Players g)" "CurrentPlayer g = word_of_nat c"
    "slice_index (Players g) (CurrentPlayer g) = Some (Players g ! c)"
    by blast
  have n: "length (Players g) < 2 ^ 63" "length (Players g) \<le> 4"
    using tr by (auto simp: turn_in_range_def intro: small_slice)
  have nw: "Winner g = None" using assms ng(1) by (rule session_inv_no_winner)
  show ?thesis
  proof (cases "ID (Players g ! c) \<noteq> pid \<or> \<not> IsActive (Players g ! c)")
    case True
    with assms ng c(3) show ?thesis by (auto simp: Hold_def)
  next
    case ok: False
    let ?p = "Players g ! c"
    let ?k = "nat (sint (CurrentPlayer g))"
    let ?b = "?p\<lparr>Score := Score ?p + TurnScore g\<rparr>"
    let ?ps = "(Players g)[?k := ?b]"
    have "c < 2 ^ 63" using c(1) n(1) by (rule less_trans)
    then have "sint (word_of_nat c :: int64) = int c" by (rule sint_of_nat64)
    then have k: "?k = c" unfolding c(2) by simp
    show ?thesis
    proof (cases "WinningScore g \<le>s Score ?p + TurnScore g")
      case True
      let ?g' = "g\<lparr>Players := ?ps, LastActivityAt := now, IsGameOver := True, Winner := Some ?k, TurnScore := 0\<rparr>"
      from True ok ng c(3) have "Hold now pid g = Returns None ?g'"
        by (simp add: Hold_def Let_def)
      moreover have "turn_in_range ?g'"
        unfolding turn_in_range_def using c(1,2) n(2) by auto
      then have "session_inv ?g'"
        by (simp add: session_inv_def winner_only_if_over_def over_has_winner_def)
      ultimately show ?thesis by blast
    next
      case False
      let ?g1 = "g\<lparr>Players := ?ps, LastActivityAt := now, TurnScore := 0\<rparr>"
      have "\<exists>g' c'. nextTurn ?g1 = Returns () g' \<and> CurrentPlayer g' = word_of_nat c' \<and>
           c' < length (Players ?g1) \<and> Players g' = Players ?g1 \<and> Winner g' = Winner ?g1 \<and>
           (IsGameOver ?g1 \<longrightarrow> IsGameOver g') \<and>
           (IsGameOver g' \<longrightarrow> IsGameOver ?g1 \<or> (\<forall>p \<in> set (Players ?g1). \<not> IsActive p))"
        using n(1) c(1,2) by (intro nextTurn_range) simp_all
      then obtain g' c' where g': "nextTurn ?g1 = Returns () g'" "CurrentPlayer g' = word_of_nat c'"
        "c' < length (Players g)" "Players g' = ?ps" "Winner g' = Winner g"
        "IsGameOver g' \<longrightarrow> IsGameOver g \<or> (\<forall>p \<in> set ?ps. \<not> IsActive p)"
        by auto
      have "?b \<in> set ?ps" using c(1) k by (simp add: set_update_memI)
      moreover have "IsActive ?b" using ok by simp
      ultimately have "\<not> (\<forall>p \<in> set ?ps. \<not> IsActive p)" by blast
      with g'(6) ng(1) have no: "\<not> IsGameOver g'" by blast
      from ok ng c(3) False g'(1) have "Hold now pid g = Returns None g'"
        by (simp add: Hold_def Let_def)
      moreover have "turn_in_range g'"
        unfolding turn_in_range_def using g'(2,3,4) n(2) by auto
      then have "session_inv g'"
        using no g'(5) nw by (intro session_inv_not_over) simp_all
      ultimately show ?thesis by blast
    qed
  qed
qed

lemma RemovePlayer_inv:
  assumes "session_inv g"
  shows "\<exists>r g'. RemovePlayer now pid g = Returns r g' \<and> session_inv g'"
proof (cases "first_index (\<lambda>p. ID p = pid) (Players g)")
  case None
  with assms show ?thesis by (auto simp: RemovePlayer_def)
next
  case (Some i)
  then have i: "i < length (Players g)" by (auto dest: first_index_SomeD)
  have tr: "turn_in_range g" and wo: "winner_only_if_over g" and ow: "over_has_winner g"
    using assms by (simp_all add: session_inv_def)
  have n: "length (Players g) < 2 ^ 63" "length (Players g) \<le> 4"
    using tr by (auto simp: turn_in_range_def intro: small_slice)
  let ?ps = "(Players g)[i := (Players g ! i)\<lparr>IsActive := False\<rparr>]"
  let ?g1 = "g\<lparr>Players := ?ps\<rparr>"
  let ?g2 = "(if length (filter IsActive (Players ?g1)) \<le> 1 \<and> length (Players ?g1) > 1
              then (case first_index IsActive (Players ?g1) of
                      Some j \<Rightarrow> ?g1\<lparr>IsGameOver := True, Winner := Some j\<rparr>
                    | None \<Rightarrow> ?g1\<lparr>IsGameOver := True\<rparr>)
              else ?g1)"
  have g2: "length (Players ?g2) = length (Players g)" "CurrentPlayer ?g2 = CurrentPlayer g"
    by (auto split: option.splits)
  have p2: "Players ?g2 = ?ps"
    by (auto split: option.splits)
  have w2: "winner_only_if_over ?g2"
    using wo by (auto simp: winner_only_if_over_def split: option.splits)
  have o2: "over_has_winner ?g2"
  proof (cases "length (filter IsActive (Players ?g1)) \<le> 1 \<and> length (Players ?g1) > 1")
    case True
    show ?thesis
    proof (cases "first_index IsActive ?ps")
      case None
      then have "\<forall>p \<in> set ?ps. \<not> IsActive p" by (simp add: first_index_None)
      then show ?thesis
        unfolding over_has_winner_def p2 by blast
    next
      case (Some j)
      with True show ?thesis
        by (simp add: over_has_winner_def)
    qed
  next
    case False
    then have e: "?g2 = ?g1" by (simp only: if_False)
    have "over_has_winner ?g1"
      unfolding over_has_winner_def
    proof (intro impI)
      assume a: "IsGameOver ?g1 \<and> (\<exists>p \<in> set (Players ?g1). IsActive p)"
      then obtain p where "p \<in> set ?ps" "IsActive p" by auto
      then have "p \<in> set (Players g)" by (rule active_after_deactivate)
      with \<open>IsActive p\<close> a ow show "Winner ?g1 \<noteq> None"
        by (auto simp: over_has_winner_def)
    qed
    with e show ?thesis by (simp only:)
  qed
  have t2: "turn_in_range ?g2"
    using tr unfolding turn_in_range_def g2 by auto
  have unfold: "RemovePlayer now pid g =
       (if word_of_nat i = CurrentPlayer ?g2
        then (case nextTurn ?g2 of Panics \<Rightarrow> Panics
              | Returns _ g3 \<Rightarrow> Returns None (g3\<lparr>LastActivityAt := now\<rparr>))
        else Returns None (?g2\<lparr>LastActivityAt := now\<rparr>))"
    by (simp only: RemovePlayer_def Some option.case Let_def)
  show ?thesis
  proof (cases "word_of_nat i = CurrentPlayer ?g2")
    case False
    then have "RemovePlayer now pid g = Returns None (?g2\<lparr>LastActivityAt := now\<rparr>)"
      unfolding unfold by (rule if_not_P)
    moreover have "session_inv ?g2"
      using t2 w2 o2 unfolding session_inv_def by (intro conjI)
    then have "session_inv (?g2\<lparr>LastActivityAt := now\<rparr>)"
      by (rule session_inv_same) simp_all
    ultimately show ?thesis by blast
  next
    case True
    have "\<exists>g' c'. nextTurn ?g2 = Returns () g' \<and> CurrentPlayer g' = word_of_nat c' \<and>
           c' < length (Players ?g2) \<and> Players g' = Players ?g2 \<and> Winner g' = Winner ?g2 \<and>
           (IsGameOver ?g2 \<longrightarrow> IsGameOver g') \<and>
           (IsGameOver g' \<longrightarrow> IsGameOver ?g2 \<or> (\<forall>p \<in> set (Players ?g2). \<not> IsActive p))"
      using n(1) i True [symmetric] unfolding g2 [symmetric] by (rule nextTurn_range)
    then obtain g3 c' where g3: "nextTurn ?g2 = Returns () g3" "CurrentPlayer g3 = word_of_nat c'"
        "c' < length (Players ?g2)" "Players g3 = Players ?g2" "Winner g3 = Winner ?g2"
        "IsGameOver ?g2 \<longrightarrow> IsGameOver g3"
        "IsGameOver g3 \<longrightarrow> IsGameOver ?g2 \<or> (\<forall>p \<in> set (Players ?g2). \<not> IsActive p)"
      by blast
    have "RemovePlayer now pid g = Returns None (g3\<lparr>LastActivityAt := now\<rparr>)"
      unfolding unfold using True g3(1) by simp
    moreover have "turn_in_range (g3\<lparr>LastActivityAt := now\<rparr>)"
      unfolding turn_in_range_def using g3(2,3,4) g2(1) n(2) by auto
    moreover have "winner_only_if_over (g3\<lparr>LastActivityAt := now\<rparr>)"
      using w2 g3(5,6) unfolding winner_only_if_over_def by simp
    moreover have "over_has_winner (g3\<lparr>LastActivityAt := now\<rparr>)"
      using o2 g3(4,5,7) unfolding over_has_winner_def by auto
    ultimately show ?thesis
      unfolding session_inv_def by blast
  qed
qed

lemma apply_op_inv:
  assumes "session_inv g"
  shows "\<exists>g'. apply_op x g = Some g' \<and> session_inv g'"
proof (cases x)
  case (OpAddPlayer now player)
  with AddPlayer_inv [OF assms] show ?thesis by simp
next
  case (OpRemovePlayer now pid)
  with RemovePlayer_inv [OF assms, of now pid] show ?thesis by auto
next
  case (OpStart now)
  with Start_inv [OF assms] show ?thesis by simp
next
  case (OpRoll now rnd pid)
  with Roll_inv [OF assms, of now rnd pid] show ?thesis by auto
next
  case (OpHold now pid)
  with Hold_inv [OF assms, of now pid] show ?thesis by auto
qed

lemma run_inv:
  assumes "session_inv g"
  shows "\<exists>g'. run ops g = Some g' \<and> session_inv g'"
  using assms
proof (induction ops arbitrary: g)
  case Nil
  then show ?case by simp
next
  case (Cons x xs)
  from apply_op_inv [OF Cons.prems, of x] obtain g1 where
    "apply_op x g = Some g1" "session_inv g1"
    by blast
  with Cons.IH [of g1] show ?case by simp
qed

lemma NewPigGame_inv: "session_inv (NewPigGame uuid now ws)"
  by (simp add: NewPigGame_def NewGameState_def session_inv_def turn_in_range_def
      winner_only_if_over_def over_has_winner_def exI [of _ 0])

section \<open>The claims\<close>

text \<open>
  The hypothesis \<open>length (Players g) < 2 ^ 63\<close> of the theorems below holds of every Go
  slice: its length is a non-negative \<^verbatim>\<open>int\<close>.
\<close>

text \<open>
  \<^bold>\<open>C1\<close>. In a session with at least two participants that is not over and whose
  current-turn participant \<open>p\<close> is active, \<open>Roll\<close> by \<open>p\<close> succeeds and returns the drawn
  value \<open>v\<close>, with \<open>1 \<le> v \<le> 6\<close>. If \<open>v = 1\<close> the turn score becomes zero and the turn
  moves to the first active participant after \<open>p\<close> in cyclic order; otherwise the turn
  score grows by exactly \<open>v\<close> and the current-turn index is unchanged.
\<close>

theorem C1_Roll:
  assumes "length (Players g) < 2 ^ 63"
    and "2 \<le> length (Players g)" and "\<not> IsGameOver g"
    and "slice_index (Players g) (CurrentPlayer g) = Some p" and "IsActive p"
  shows "\<exists>v. v = Intn rnd 6 + 1 \<and> 1 \<le> sint v \<and> sint v \<le> 6 \<and>
     (if v = 1
      then \<exists>c'. first_active_after (Players g) (nat (sint (CurrentPlayer g))) c' \<and>
             Roll now rnd (ID p) g =
               Returns (v, None) (g\<lparr>CurrentPlayer := word_of_nat c', TurnScore := 0,
                                    LastRoll := 0, LastActivityAt := now\<rparr>)
      else Roll now rnd (ID p) g =
             Returns (v, None) (g\<lparr>TurnScore := TurnScore g + v, LastRoll := v,
                                  LastActivityAt := now\<rparr>))"
proof -
  let ?v = "Intn rnd 6 + 1"
  let ?c = "nat (sint (CurrentPlayer g))"
  from slice_index_SomeD [OF assms(4)]
  have c: "?c < length (Players g)" "p = Players g ! ?c" "CurrentPlayer g = word_of_nat ?c"
    by simp_all
  have pre: "\<not> length (Players g) < 2" using assms(2) by simp
  have branch: "(if ?v = 1
      then \<exists>c'. first_active_after (Players g) ?c c' \<and>
             Roll now rnd (ID p) g =
               Returns (?v, None) (g\<lparr>CurrentPlayer := word_of_nat c', TurnScore := 0,
                                    LastRoll := 0, LastActivityAt := now\<rparr>)
      else Roll now rnd (ID p) g =
             Returns (?v, None) (g\<lparr>TurnScore := TurnScore g + ?v, LastRoll := ?v,
                                  LastActivityAt := now\<rparr>))"
  proof (cases "?v = 1")
    case False
    then show ?thesis
      using assms(3,4,5) pre by (simp add: Roll_def Let_def)
  next
    case True
    let ?g1 = "g\<lparr>LastRoll := ?v, LastActivityAt := now, TurnScore := 0\<rparr>"
    have "p \<in> set (Players g)" using c(1,2) by simp
    with assms(5) have ex: "\<exists>p \<in> set (Players ?g1). IsActive p" by auto
    have "\<exists>c'. first_active_after (Players ?g1) ?c c' \<and>
           nextTurn ?g1 = Returns () (?g1\<lparr>CurrentPlayer := word_of_nat c', LastRoll := 0\<rparr>)"
      using assms(1) c(1,3) ex by (intro nextTurn_found) simp_all
    then obtain c' where c': "first_active_after (Players g) ?c c'"
      "nextTurn ?g1 = Returns () (?g1\<lparr>CurrentPlayer := word_of_nat c', LastRoll := 0\<rparr>)"
      by auto
    have "Roll now rnd (ID p) g = Returns (?v, None) (?g1\<lparr>CurrentPlayer := word_of_nat c', LastRoll := 0\<rparr>)"
      using assms(3,4,5) pre True c'(2) by (simp add: Roll_def Let_def)
    with c'(1) True show ?thesis by auto
  qed
  show ?thesis
    using branch Intn6_bounds [of rnd] by blast
qed

theorem C1_Roll_witness:
  "length (Players two_players) < 2 ^ 63 \<and> 2 \<le> length (Players two_players) \<and>
   \<not> IsGameOver two_players \<and>
   slice_index (Players two_players) (CurrentPlayer two_players) = Some alice \<and>
   IsActive alice \<and>
   Roll 5 3 ''a'' two_players =
     Returns (4, None) (two_players\<lparr>TurnScore := 4, LastRoll := 4, LastActivityAt := 5\<rparr>) \<and>
   Roll 5 6 ''a'' two_players =
     Returns (1, None) (two_players\<lparr>CurrentPlayer := 1, LastActivityAt := 5\<rparr>)"
  using C1_Roll [of two_players alice 3 5] C1_Roll [of two_players alice 6 5]
  by (simp add: example_defs Roll_def nextTurn_def nextTurn_loop.simps go_rem_def len_def
      slice_index_def Intn_def signed_modulo_int_def word_sle_eq Let_def)

text \<open>
  \<^bold>\<open>C2\<close>. In a started session that is not over and whose current-turn participant \<open>p\<close>
  is active, \<open>Hold\<close> by \<open>p\<close> adds exactly the turn score to \<open>p\<close>'s total and zeroes the turn
  score. If the new total reaches the target, the session is over with winner \<open>p\<close>, the
  turn does not move, and after any further operations every \<open>Roll\<close> and \<open>Hold\<close> by any
  participant fails with \<open>ErrGameOver\<close>; otherwise the turn moves to the first active
  participant after \<open>p\<close>.
\<close>

theorem C2_Hold:
  assumes "length (Players g) < 2 ^ 63"
    and "2 \<le> length (Players g)" and "\<not> IsGameOver g"
    and "slice_index (Players g) (CurrentPlayer g) = Some p" and "IsActive p"
  shows "let c = nat (sint (CurrentPlayer g));
             ps' = (Players g)[c := p\<lparr>Score := Score p + TurnScore g\<rparr>]
         in if WinningScore g \<le>s Score p + TurnScore g
            then (let g' = g\<lparr>Players := ps', TurnScore := 0, Winner := Some c,
                             IsGameOver := True, LastActivityAt := now\<rparr>
                  in Hold now (ID p) g = Returns None g' \<and>
                     (\<forall>ops. \<exists>g''. run ops g' = Some g'' \<and>
                        (\<forall>t rnd q. Roll t rnd q g'' = Returns (0, Some ErrGameOver) g'' \<and>
                                   Hold t q g'' = Returns (Some ErrGameOver) g'')))
            else (\<exists>c'. first_active_after ps' c c' \<and>
                    Hold now (ID p) g =
                      Returns None (g\<lparr>Players := ps', CurrentPlayer := word_of_nat c',
                                      TurnScore := 0, LastRoll := 0, LastActivityAt := now\<rparr>))"
proof -
  let ?c = "nat (sint (CurrentPlayer g))"
  let ?b = "p\<lparr>Score := Score p + TurnScore g\<rparr>"
  let ?ps = "(Players g)[?c := ?b]"
  from slice_index_SomeD [OF assms(4)]
  have c: "?c < length (Players g)" "p = Players g ! ?c" "CurrentPlayer g = word_of_nat ?c"
    by simp_all
  have pre: "\<not> length (Players g) < 2" using assms(2) by simp
  show ?thesis
  proof (cases "WinningScore g \<le>s Score p + TurnScore g")
    case True
    let ?g' = "g\<lparr>Players := ?ps, TurnScore := 0, Winner := Some ?c,
                             IsGameOver := True, LastActivityAt := now\<rparr>"
    have hold: "Hold now (ID p) g = Returns None ?g'"
      using assms(3,4,5) pre True by (simp add: Hold_def Let_def)
    have after: "\<exists>g''. run ops ?g' = Some g'' \<and>
                        (\<forall>t rnd q. Roll t rnd q g'' = Returns (0, Some ErrGameOver) g'' \<and>
                                   Hold t q g'' = Returns (Some ErrGameOver) g'')" for ops
    proof -
      have "IsGameOver ?g'" "length (Players ?g') < 2 ^ 63" using assms(1) by simp_all
      from run_over [OF this, of ops] obtain g'' where "run ops ?g' = Some g''" "IsGameOver g''"
        by blast
      then show ?thesis by (simp add: Roll_def Hold_def)
    qed
    show ?thesis
      using True hold after by (simp add: Let_def)
  next
    case False
    let ?g1 = "g\<lparr>Players := ?ps, LastActivityAt := now, TurnScore := 0\<rparr>"
    have "?b \<in> set ?ps" using c(1) by (simp add: set_update_memI)
    moreover have "IsActive ?b" using assms(5) by simp
    ultimately have "\<exists>q \<in> set ?ps. IsActive q" by (rule bexI [rotated])
    then have ex: "\<exists>q \<in> set (Players ?g1). IsActive q" by simp
    have "\<exists>c'. first_active_after (Players ?g1) ?c c' \<and>
           nextTurn ?g1 = Returns () (?g1\<lparr>CurrentPlayer := word_of_nat c', LastRoll := 0\<rparr>)"
      using assms(1) c(1,3) ex by (intro nextTurn_found) simp_all
    then obtain c' where c': "first_active_after ?ps ?c c'"
      "nextTurn ?g1 = Returns () (?g1\<lparr>CurrentPlayer := word_of_nat c', LastRoll := 0\<rparr>)"
      by auto
    have "Hold now (ID p) g = Returns None (?g1\<lparr>CurrentPlayer := word_of_nat c', LastRoll := 0\<rparr>)"
      using assms(3,4,5) pre False c'(2) by (simp add: Hold_def Let_def)
    with c'(1) False show ?thesis by (auto simp: Let_def)
  qed
qed

theorem C2_Hold_witness:
  "length (Players (two_players\<lparr>TurnScore := 20\<rparr>)) < 2 ^ 63 \<and>
   2 \<le> length (Players (two_players\<lparr>TurnScore := 20\<rparr>)) \<and>
   \<not> IsGameOver (two_players\<lparr>TurnScore := 20\<rparr>) \<and>
   slice_index (Players (two_players\<lparr>TurnScore := 20\<rparr>))
     (CurrentPlayer (two_players\<lparr>TurnScore := 20\<rparr>)) = Some alice \<and>
   IsActive alice \<and>
   Hold 7 ''a'' (two_players\<lparr>TurnScore := 20\<rparr>) =
     Returns None (two_players\<lparr>Players := [alice\<lparr>Score := 20\<rparr>, bob], TurnScore := 0,
                     Winner := Some 0, IsGameOver := True, LastActivityAt := 7\<rparr>)"
  using C2_Hold [of "two_players\<lparr>TurnScore := 20\<rparr>" alice 7]
  by (simp add: example_defs slice_index_def Let_def word_sle_eq)

text \<open>
  \<^bold>\<open>C3\<close>. \<open>RemovePlayer\<close> fails with \<open>ErrInvalidPlayer\<close> and changes nothing when no
  participant has the id. Otherwise it succeeds and marks the participant \<open>i\<close> with that
  id inactive. If \<open>i\<close> held the turn, the turn advances: to the first active participant
  after \<open>i\<close>, or, when none is active, the index stays and the session is over. If at most
  one participant is active afterwards and at least two have joined, the session is over
  and a participant that is still active is the winner.
\<close>

theorem C3_RemovePlayer:
  assumes "length (Players g) < 2 ^ 63"
  shows "if \<forall>p \<in> set (Players g). ID p \<noteq> pid
         then RemovePlayer now pid g = Returns (Some ErrInvalidPlayer) g
         else \<exists>i g'. first_index (\<lambda>p. ID p = pid) (Players g) = Some i \<and>
            RemovePlayer now pid g = Returns None g' \<and>
            (let ps' = (Players g)[i := (Players g ! i)\<lparr>IsActive := False\<rparr>] in
               Players g' = ps' \<and>
               (if CurrentPlayer g = word_of_nat i
                then (if \<exists>p \<in> set ps'. IsActive p
                      then \<exists>c'. first_active_after ps' i c' \<and> CurrentPlayer g' = word_of_nat c'
                      else CurrentPlayer g' = CurrentPlayer g \<and> IsGameOver g')
                else CurrentPlayer g' = CurrentPlayer g) \<and>
               (length (filter IsActive ps') \<le> 1 \<and> 2 \<le> length ps' \<longrightarrow>
                  IsGameOver g' \<and>
                  (\<forall>j < length ps'. IsActive (ps' ! j) \<longrightarrow> Winner g' = Some j)))"
proof (cases "first_index (\<lambda>p. ID p = pid) (Players g)")
  case None
  then have "\<forall>p \<in> set (Players g). ID p \<noteq> pid"
    by (simp add: first_index_None)
  with None show ?thesis
    by (simp add: RemovePlayer_def)
next
  case (Some i)
  then have "ID (Players g ! i) = pid" "i < length (Players g)"
    by (auto dest: first_index_SomeD)
  then have "\<not> (\<forall>p \<in> set (Players g). ID p \<noteq> pid)"
    by (metis nth_mem)
  with RemovePlayer_found [OF assms Some, of now] Some show ?thesis
    by (simp only: if_False) blast
qed

theorem C3_RemovePlayer_witness:
  "length (Players two_players) < 2 ^ 63 \<and>
   RemovePlayer 3 ''a'' two_players = Returns None alice_left \<and>
   RemovePlayer 3 ''z'' two_players = Returns (Some ErrInvalidPlayer) two_players"
  using C3_RemovePlayer [of two_players "''a''" 3] C3_RemovePlayer [of two_players "''z''" 3]
  by (simp add: example_defs RemovePlayer_def nextTurn_def nextTurn_loop.simps go_rem_def
      len_def slice_index_def signed_modulo_int_def word_sle_eq Let_def)

text \<open>
  \<^bold>\<open>C5\<close> as stated, ``the winner is set if and only if the session is over'', fails:
  when a lone participant joins and leaves, the scan of \<open>nextTurn\<close> finds nobody and ends
  the session without a winner.
\<close>

theorem C5_counterexample:
  "run [OpAddPlayer 1 alice, OpRemovePlayer 2 ''a''] (NewPigGame ''g'' 0 20) = Some lone_left \<and>
   IsGameOver lone_left \<and> Winner lone_left = None"
  by (simp add: example_defs AddPlayer_def RemovePlayer_def nextTurn_def nextTurn_loop.simps
      go_rem_def len_def slice_index_def signed_modulo_int_def word_sle_eq Let_def)

text \<open>
  \<^bold>\<open>C5\<close>, amended. Every sequence of AddPlayer, Start, Roll, Hold and RemovePlayer calls
  on a fresh session runs without a panic, and in the state it reaches a winner is set
  only if the session is over, and is set if the session is over and some participant
  is still active. (The two agree except in a session that is over with no active
  participant left.)
\<close>

theorem C5_winner_iff_over_unless_deserted:
  "\<exists>g. run ops (NewPigGame uuid now winningScore) = Some g \<and>
       (Winner g \<noteq> None \<longrightarrow> IsGameOver g) \<and>
       (IsGameOver g \<and> (\<exists>p \<in> set (Players g). IsActive p) \<longrightarrow> Winner g \<noteq> None)"
  using run_inv [of "NewPigGame uuid now winningScore" ops] NewPigGame_inv [of uuid now winningScore]
  by (auto simp: session_inv_def winner_only_if_over_def over_has_winner_def)

theorem C5_winner_iff_over_unless_deserted_witness:
  "run [OpAddPlayer 1 alice, OpAddPlayer 2 bob, OpRemovePlayer 3 ''a''] (NewPigGame ''g'' 0 20) =
     Some alice_left \<and>
   IsGameOver alice_left \<and> bob \<in> set (Players alice_left) \<and> IsActive bob \<and>
   Winner alice_left = Some 1"
  using C5_winner_iff_over_unless_deserted
    [of "[OpAddPlayer 1 alice, OpAddPlayer 2 bob, OpRemovePlayer 3 ''a'']" "''g''" 0 20]
  by (simp add: example_defs AddPlayer_def RemovePlayer_def nextTurn_def nextTurn_loop.simps
      go_rem_def len_def slice_index_def signed_modulo_int_def word_sle_eq Let_def)

text \<open>
  \<^bold>\<open>C6\<close>. Whenever AddPlayer, Start, Roll, Hold or RemovePlayer returns an error, the state
  it leaves is the state it was called on.
\<close>

theorem C6_failure_leaves_state:
  "(AddPlayer now player g = (Some e, g') \<longrightarrow> g' = g) \<and>
   (Start now g = (Some e, g') \<longrightarrow> g' = g) \<and>
   (Roll now rnd pid g = Returns (v, Some e) g' \<longrightarrow> g' = g) \<and>
   (Hold now pid g = Returns (Some e) g' \<longrightarrow> g' = g) \<and>
   (RemovePlayer now pid g = Returns (Some e) g' \<longrightarrow> g' = g)"
proof (intro conjI impI)
  assume "AddPlayer now player g = (Some e, g')"
  then show "g' = g" by (auto simp: AddPlayer_def split: if_splits)
next
  assume "Start now g = (Some e, g')"
  then show "g' = g" by (auto simp: Start_def split: if_splits)
next
  assume "Roll now rnd pid g = Returns (v, Some e) g'"
  then show "g' = g"
    by (auto simp: Roll_def Let_def split: if_splits option.splits outcome.splits)
next
  assume "Hold now pid g = Returns (Some e) g'"
  then show "g' = g"
    by (auto simp: Hold_def Let_def split: if_splits option.splits outcome.splits)
next
  assume "RemovePlayer now pid g = Returns (Some e) g'"
  then show "g' = g"
    by (auto simp: RemovePlayer_def Let_def split: if_splits option.splits outcome.splits)
qed

theorem C6_failure_leaves_state_witness:
  "Roll 5 3 ''b'' two_players = Returns (0, Some ErrNotPlayerTurn) two_players \<and>
   Hold 5 ''b'' two_players = Returns (Some ErrNotPlayerTurn) two_players \<and>
   AddPlayer 5 alice two_players = (Some ErrPlayerAlreadyInGame, two_players) \<and>
   Start 5 alice_left = (Some ErrGameOver, alice_left) \<and>
   RemovePlayer 5 ''z'' two_players = Returns (Some ErrInvalidPlayer) two_players"
  using C6_failure_leaves_state [of 5 alice two_players ErrPlayerAlreadyInGame two_players 3 "''b''" 0]
  by (simp add: example_defs Roll_def Hold_def AddPlayer_def Start_def RemovePlayer_def
      slice_index_def word_sle_eq)

text \<open>
  \<^bold>\<open>C7\<close> as stated, ``Start fails exactly when fewer than two participants have joined'',
  fails: with two participants in a session that is over, Start returns \<open>ErrGameOver\<close>.
\<close>

theorem C7_counterexample:
  "run [OpAddPlayer 1 alice, OpAddPlayer 2 bob, OpRemovePlayer 3 ''a''] (NewPigGame ''g'' 0 20) =
     Some alice_left \<and>
   length (Players alice_left) = 2 \<and>
   Start 4 alice_left = (Some ErrGameOver, alice_left)"
  by (simp add: example_defs AddPlayer_def RemovePlayer_def Start_def nextTurn_def
      nextTurn_loop.simps go_rem_def len_def slice_index_def signed_modulo_int_def word_sle_eq
      Let_def)

text \<open>
  \<^bold>\<open>C7\<close>, amended. \<open>Start\<close> succeeds exactly when at least two participants have joined
  and the session is not over; it fails with \<open>ErrNotEnoughPlayers\<close> below two participants
  and with \<open>ErrGameOver\<close> in a session that is over. A successful call changes nothing but
  the last-activity time, and a repeated call succeeds in the same way.
\<close>

theorem C7_Start:
  "(fst (Start now g) = None \<longleftrightarrow> 2 \<le> length (Players g) \<and> \<not> IsGameOver g) \<and>
   (length (Players g) < 2 \<longrightarrow> Start now g = (Some ErrNotEnoughPlayers, g)) \<and>
   (2 \<le> length (Players g) \<and> IsGameOver g \<longrightarrow> Start now g = (Some ErrGameOver, g)) \<and>
   (2 \<le> length (Players g) \<and> \<not> IsGameOver g \<longrightarrow>
      Start now g = (None, g\<lparr>LastActivityAt := now\<rparr>) \<and>
      Start now' (snd (Start now g)) = (None, g\<lparr>LastActivityAt := now'\<rparr>))"
  by (auto simp: Start_def)

theorem C7_Start_witness:
  "2 \<le> length (Players two_players) \<and> \<not> IsGameOver two_players \<and>
   Start 4 two_players = (None, two_players\<lparr>LastActivityAt := 4\<rparr>) \<and>
   Start 9 (snd (Start 4 two_players)) = (None, two_players\<lparr>LastActivityAt := 9\<rparr>) \<and>
   Start 4 (NewPigGame ''g'' 0 20) = (Some ErrNotEnoughPlayers, NewPigGame ''g'' 0 20)"
  using C7_Start [of 4 two_players 9] C7_Start [of 4 "NewPigGame ''g'' 0 20" 9]
  by (simp add: example_defs Start_def word_sle_eq)

text \<open>
  \<^bold>\<open>C8\<close>. \<open>FindOrCreateMatch\<close> returns the waiting room, and leaves the directory as it
  is, when there is one that has not started and has fewer registered connections than
  \<open>MaxPlayers\<close>; otherwise it creates a match under the fresh identifier, registers it and
  makes it the waiting room. Hence a second call right after a first returns the same
  match, and a call made when the waiting room has started or is full returns a match
  whose identifier differs from the waiting room's (the fresh UUID being different from
  it).
\<close>

theorem C8_FindOrCreateMatch:
  "(\<forall>w. waitingRoom mm = Some w \<and> \<not> IsStarted w \<and> len (Match_Players w) <s MaxPlayers w \<longrightarrow>
       FindOrCreateMatch uuid1 uuid2 now ws mm = (w, mm)) \<and>
   ((\<forall>w. waitingRoom mm = Some w \<longrightarrow> IsStarted w \<or> \<not> len (Match_Players w) <s MaxPlayers w) \<longrightarrow>
       FindOrCreateMatch uuid1 uuid2 now ws mm =
         (NewMatch uuid1 uuid2 now ws,
          mm\<lparr>matches := AList.update uuid1 (NewMatch uuid1 uuid2 now ws) (matches mm),
             waitingRoom := Some (NewMatch uuid1 uuid2 now ws)\<rparr>) \<and>
       map_of (matches (snd (FindOrCreateMatch uuid1 uuid2 now ws mm))) uuid1 =
         Some (NewMatch uuid1 uuid2 now ws) \<and>
       Match_ID (NewMatch uuid1 uuid2 now ws) = uuid1) \<and>
   FindOrCreateMatch uuid1' uuid2' now' ws' (snd (FindOrCreateMatch uuid1 uuid2 now ws mm)) =
     (fst (FindOrCreateMatch uuid1 uuid2 now ws mm), snd (FindOrCreateMatch uuid1 uuid2 now ws mm)) \<and>
   (\<forall>w. waitingRoom mm = Some w \<and> (IsStarted w \<or> \<not> len (Match_Players w) <s MaxPlayers w) \<and>
        uuid1 \<noteq> Match_ID w \<longrightarrow>
        Match_ID (fst (FindOrCreateMatch uuid1 uuid2 now ws mm)) \<noteq> Match_ID w)"
proof -
  have fresh: "\<not> IsStarted (NewMatch a b t s) \<and> len (Match_Players (NewMatch a b t s)) <s MaxPlayers (NewMatch a b t s)"
    for a b t s
    by (simp add: NewMatch_def len_def word_sless_alt)
  have id: "Match_ID (NewMatch a b t s) = a" for a b t s
    by (simp add: NewMatch_def)
  have gid: "GameID (NewGameState a t s) = a" for a t s
    by (simp add: NewGameState_def)
  show ?thesis
  proof (cases "waitingRoom mm")
    case None
    then show ?thesis
      using fresh by (simp add: FindOrCreateMatch_def Let_def id gid update_conv')
  next
    case (Some w)
    show ?thesis
    proof (cases "\<not> IsStarted w \<and> len (Match_Players w) <s MaxPlayers w")
      case True
      with Some show ?thesis
        by (simp add: FindOrCreateMatch_def Let_def id gid)
    next
      case False
      with Some show ?thesis
        using fresh by (auto simp add: FindOrCreateMatch_def Let_def id gid update_conv')
    qed
  qed
qed


theorem C8_FindOrCreateMatch_witness:
  "FindOrCreateMatch ''m1'' ''g1'' 3 20 empty_manager =
     (NewMatch ''m1'' ''g1'' 3 20,
      \<lparr>matches = [(''m1'', NewMatch ''m1'' ''g1'' 3 20)],
       waitingRoom = Some (NewMatch ''m1'' ''g1'' 3 20)\<rparr>) \<and>
   fst (FindOrCreateMatch ''m2'' ''g2'' 4 20 (snd (FindOrCreateMatch ''m1'' ''g1'' 3 20 empty_manager))) =
     NewMatch ''m1'' ''g1'' 3 20 \<and>
   waitingRoom (empty_manager\<lparr>waitingRoom := Some started_match\<rparr>) = Some started_match \<and>
   IsStarted started_match \<and> ''m2'' \<noteq> Match_ID started_match \<and>
   Match_ID (fst (FindOrCreateMatch ''m2'' ''g2'' 4 20
     (empty_manager\<lparr>waitingRoom := Some started_match\<rparr>))) = ''m2''"
  using C8_FindOrCreateMatch [of empty_manager "''m1''" "''g1''" 3 20 "''m2''" "''g2''" 4 20]
    C8_FindOrCreateMatch [of "empty_manager\<lparr>waitingRoom := Some started_match\<rparr>" "''m2''" "''g2''" 4 20]
  by (simp add: match_defs FindOrCreateMatch_def NewGameState_def Let_def len_def word_sless_alt)

text \<open>
  \<^bold>\<open>C9\<close>. The claim: when a join comes from a connection whose participant id is in
  the session, or whose session is full, the match sends that connection an error
  message and does not register it, and the participant list and the other connections
  stay as they are. \<open>handleRegister\<close> does not do this. In the started match of Alice and
  Bob, a second connection presents Alice's id: \<open>AddPlayer\<close> refuses it, the error is only
  logged, nothing is sent on the joining connection's channel and nothing is broadcast;
  and since the handler stored the joining connection under the id before calling
  \<open>AddPlayer\<close> and deletes that key afterwards, Alice's own connection is no longer
  registered, while Bob's is.
\<close>

theorem C9_handleRegister_duplicate_join:
  "ID alice = PlayerID second_alice_conn \<and> alice \<in> set (Players (Game started_match)) \<and>
   AddPlayer 9 ((NewPlayer ''u'' (PlayerName second_alice_conn))\<lparr>ID := PlayerID second_alice_conn\<rparr>)
     (Game started_match) = (Some ErrPlayerAlreadyInGame, Game started_match) \<and>
   snd (handleRegister 9 ''u'' second_alice_conn started_match) = second_alice_conn \<and>
   Send second_alice_conn = [] \<and>
   Broadcast (fst (handleRegister 9 ''u'' second_alice_conn started_match)) = [] \<and>
   Game (fst (handleRegister 9 ''u'' second_alice_conn started_match)) = Game started_match \<and>
   map_of (Match_Players started_match) ''a'' = Some alice_conn \<and>
   map_of (Match_Players (fst (handleRegister 9 ''u'' second_alice_conn started_match))) ''a'' = None \<and>
   map_of (Match_Players (fst (handleRegister 9 ''u'' second_alice_conn started_match))) ''b'' =
     Some bob_conn"
  by (simp add: match_defs example_defs handleRegister_def AddPlayer_def Let_def word_sle_eq)

text \<open>
  \<^bold>\<open>C10\<close>. \<open>RemovePlayer\<close> does not look at the over flag: in a session that is over with
  winner \<open>w\<close>, removing \<open>w\<close> succeeds, and if exactly one participant \<open>j\<close> is active
  afterwards, \<open>j\<close> replaces \<open>w\<close> as the winner (then at least two have joined).
\<close>

theorem C10_RemovePlayer_after_over:
  assumes "length (Players g) < 2 ^ 63"
    and "IsGameOver g" and "Winner g = Some w"
    and "first_index (\<lambda>p. ID p = pid) (Players g) = Some w"
    and "length (filter IsActive ((Players g)[w := (Players g ! w)\<lparr>IsActive := False\<rparr>])) = 1"
    and "j < length (Players g)"
    and "IsActive ((Players g)[w := (Players g ! w)\<lparr>IsActive := False\<rparr>] ! j)"
  shows "\<exists>g'. RemovePlayer now pid g = Returns None g' \<and> IsGameOver g' \<and>
           Winner g' = Some j \<and> j \<noteq> w \<and> 2 \<le> length (Players g)"
proof -
  let ?ps = "(Players g)[w := (Players g ! w)\<lparr>IsActive := False\<rparr>]"
  have w: "w < length (Players g)" using assms(4) by (auto dest: first_index_SomeD)
  then have "\<not> IsActive (?ps ! w)" by simp
  with assms(7) have ne: "j \<noteq> w" by auto
  with w assms(6) have two: "2 \<le> length ?ps" by simp
  from RemovePlayer_found [OF assms(1,4), of now] obtain g' where
    g': "RemovePlayer now pid g = Returns None g'"
    "length (filter IsActive ?ps) \<le> 1 \<and> 2 \<le> length ?ps \<longrightarrow>
       IsGameOver g' \<and> (\<forall>j < length ?ps. IsActive (?ps ! j) \<longrightarrow> Winner g' = Some j)"
    unfolding Let_def by blast
  from g'(2) assms(5,6,7) two have "IsGameOver g'" "Winner g' = Some j" by auto
  with g'(1) ne two show ?thesis by simp
qed

theorem C10_RemovePlayer_after_over_witness:
  "length (Players three_won) < 2 ^ 63 \<and> IsGameOver three_won \<and> Winner three_won = Some 0 \<and>
   first_index (\<lambda>p. ID p = ''a'') (Players three_won) = Some 0 \<and>
   RemovePlayer 6 ''a'' three_won =
     Returns None (three_won\<lparr>Players := [alice\<lparr>Score := 2, IsActive := False\<rparr>,
                                          bob\<lparr>IsActive := False\<rparr>, carol],
                     CurrentPlayer := 2, LastRoll := 0, Winner := Some 2, LastActivityAt := 6\<rparr>)"
  using C10_RemovePlayer_after_over [of three_won 0 "''a''" 2 6]
  by (simp add: example_defs RemovePlayer_def nextTurn_def nextTurn_loop.simps go_rem_def
      len_def slice_index_def signed_modulo_int_def word_sle_eq Let_def)

end
